theory Spec2Isabelle
  imports Main
begin

section \<open>JavaScript strings\<close>

text \<open>
  A JavaScript string is a sequence of UTF-16 code units. A code unit is modelled as its
  number, so that the character classes of the regular expressions (\<open>\s\<close>, \<open>.\<close>, \<open>\d\<close>)
  can be written out for the whole range and not only for ASCII.
  \<open>str\<close> turns an ASCII literal into such a sequence.
\<close>

type_synonym jschar = nat
type_synonym jsstring = "nat list"

definition str :: "string \<Rightarrow> jsstring" where
  "str s = map of_char s"

definition NL :: jschar where
  "NL = 10"

definition BACKSLASH :: jschar where
  "BACKSLASH = 92"

definition COLON :: jschar where
  "COLON = 58"

definition MINUS :: jschar where
  "MINUS = 45"

definition PLUS :: jschar where
  "PLUS = 43"

definition STAR :: jschar where
  "STAR = 42"

definition DOT :: jschar where
  "DOT = 46"

text \<open>
  \<open>\s\<close> of a JavaScript regular expression, which is also what \<open>String.prototype.trim\<close>
  strips: the WhiteSpace and LineTerminator code units of ECMAScript (tab, line feed,
  vertical tab, form feed, carriage return, space, no-break space, U+1680,
  U+2000 to U+200A, U+2028, U+2029, U+202F, U+205F, U+3000, U+FEFF).
\<close>

definition isSpace :: "jschar \<Rightarrow> bool" where
  "isSpace c = (c = 9 \<or> c = 10 \<or> c = 11 \<or> c = 12 \<or> c = 13 \<or> c = 32 \<or> c = 160
     \<or> c = 0x1680 \<or> (0x2000 \<le> c \<and> c \<le> 0x200A) \<or> c = 0x2028 \<or> c = 0x2029
     \<or> c = 0x202F \<or> c = 0x205F \<or> c = 0x3000 \<or> c = 0xFEFF)"

text \<open>The line terminators, which \<open>.\<close> does not match (the expressions have no \<open>s\<close> flag).\<close>

definition isLineTerminator :: "jschar \<Rightarrow> bool" where
  "isLineTerminator c = (c = 10 \<or> c = 13 \<or> c = 0x2028 \<or> c = 0x2029)"

text \<open>\<open>\d\<close>: the ASCII digits.\<close>

definition isDigit :: "jschar \<Rightarrow> bool" where
  "isDigit c = (48 \<le> c \<and> c \<le> 57)"

text \<open>\<open>.*$\<close> at the end of an expression: the rest of the line, free of line terminators.\<close>

definition dotsToEnd :: "jsstring \<Rightarrow> bool" where
  "dotsToEnd s = (\<not> list_ex isLineTerminator s)"

section \<open>The list definitions and their regular expressions\<close>

text \<open>
  The three expressions of \<open>defs\<close> (lists.ts, lines 29, 38 and 47). \<open>exec\<close> below gives for
  each of them what \<open>RegExp.prototype.exec\<close> returns: \<open>None\<close> for \<open>null\<close>, and otherwise
  the array of the whole match followed by the capture groups. All three are anchored by
  \<open>^\<close> and \<open>$\<close> (without the \<open>m\<close> flag), so the whole match is the line itself.
\<close>

datatype RegExp = UnorderedRe | OrderedRe | DefinitionRe

text \<open>\<open>^\\?\<close>: the optional backslash is greedy, and no expression can match a line that
  starts with a backslash without consuming it in the first two expressions.\<close>

definition dropBackslash :: "jsstring \<Rightarrow> jsstring" where
  "dropBackslash line = (case line of [] \<Rightarrow> [] | c # cs \<Rightarrow> if c = BACKSLASH then cs else line)"

text \<open>
  \<open>\s+(.*)$\<close> after the list marker: at least one white space unit, all of them taken by
  the greedy \<open>\s+\<close>, then the rest of the line, which must be free of line terminators
  (giving white space back to \<open>.*\<close> never helps: the rest still has to be crossed).
\<close>

definition itemText :: "jsstring \<Rightarrow> jsstring option" where
  "itemText rest =
     (case rest of
        [] \<Rightarrow> None
      | c # cs \<Rightarrow>
          if isSpace c \<and> dotsToEnd (dropWhile isSpace rest)
          then Some (dropWhile isSpace rest) else None)"

text \<open>\<open>(-|\+|\*{1,4})\<close> at the start of \<open>s\<close>, before the check of its length: a minus, a plus
  or the whole run of stars (a part of a longer run is never followed by white space).\<close>

definition unorderedMarker :: "jsstring \<Rightarrow> jsstring" where
  "unorderedMarker s =
     (case s of
        [] \<Rightarrow> []
      | c # cs \<Rightarrow> if c = MINUS \<or> c = PLUS then [c] else takeWhile (\<lambda>c. c = STAR) s)"

text \<open>\<open>/^\\?\s*(-|\+|\*{1,4})\s+(.*)$/\<close>: \<open>$1\<close> is the list ID, \<open>$2\<close> the item text.\<close>

definition execUnordered :: "jsstring \<Rightarrow> jsstring list option" where
  "execUnordered line =
     (let s = dropWhile isSpace (dropBackslash line);
          marker = unorderedMarker s
      in if marker = [] \<or> 4 < length marker then None
         else case itemText (drop (length marker) s) of
                None \<Rightarrow> None
              | Some text \<Rightarrow> Some [line, marker, text])"

text \<open>\<open>/^\\?\s*(?:\d*)(\.{1,4})\s+(.*)$/\<close>: \<open>$1\<close> is the list ID, \<open>$2\<close> the item text.\<close>

definition execOrdered :: "jsstring \<Rightarrow> jsstring list option" where
  "execOrdered line =
     (let s = dropWhile isDigit (dropWhile isSpace (dropBackslash line));
          marker = takeWhile (\<lambda>c. c = DOT) s
      in if marker = [] \<or> 4 < length marker then None
         else case itemText (drop (length marker) s) of
                None \<Rightarrow> None
              | Some text \<Rightarrow> Some [line, marker, text])"

text \<open>
  \<open>(:{2,4})(|\s+.*)$\<close>, tried right after the last unit of the term: the run of colons
  there must be two to four long (a shorter greedy match would leave a colon, which
  neither alternative of the last group accepts), and what follows is either nothing or
  white space and the rest of the line. The result is \<open>$2\<close> and \<open>$3\<close>.
\<close>

definition colonsAndDefinition :: "jsstring \<Rightarrow> (jsstring \<times> jsstring) option" where
  "colonsAndDefinition cs =
     (let colons = takeWhile (\<lambda>c. c = COLON) cs;
          rest = drop (length colons) cs
      in if length colons < 2 \<or> 4 < length colons then None
         else case rest of
                [] \<Rightarrow> Some (colons, [])
              | c # _ \<Rightarrow>
                  if isSpace c \<and> dotsToEnd (dropWhile isSpace rest)
                  then Some (colons, rest) else None)"

text \<open>The first result of \<open>f\<close> over the candidates, in their order: backtracking.\<close>

primrec firstSome :: "('a \<Rightarrow> 'b option) \<Rightarrow> 'a list \<Rightarrow> 'b option" where
  "firstSome f [] = None"
| "firstSome f (x # xs) = (case f x of Some y \<Rightarrow> Some y | None \<Rightarrow> firstSome f xs)"

text \<open>
  \<open>(.*[^:])\<close> started at index \<open>st\<close> of the line: the greedy \<open>.*\<close> first takes every unit up
  to the next line terminator and then gives them back one at a time; after it, one unit
  other than a colon, then \<open>colonsAndDefinition\<close>.
\<close>

definition termAt :: "jsstring \<Rightarrow> nat \<Rightarrow> nat \<Rightarrow> jsstring list option" where
  "termAt line st g =
     (let p = st + g
      in if p < length line \<and> line ! p \<noteq> COLON
         then case colonsAndDefinition (drop (Suc p) line) of
                None \<Rightarrow> None
              | Some (colons, defn) \<Rightarrow> Some [line, take (Suc g) (drop st line), colons, defn]
         else None)"

definition termFrom :: "jsstring \<Rightarrow> nat \<Rightarrow> jsstring list option" where
  "termFrom line st =
     (let most = length (takeWhile (\<lambda>c. \<not> isLineTerminator c) (drop st line))
      in firstSome (termAt line st) (rev [0..<Suc most]))"

text \<open>
  \<open>/^\\?\s*(.*[^:])(:{2,4})(|\s+.*)$/\<close>: \<open>$1\<close> is the term, \<open>$2\<close> the list ID, \<open>$3\<close> the
  definition. The term may start with white space or with the backslash when nothing
  else matches, so the starts of \<open>$1\<close> are tried in the order of the backtracking: after
  the backslash and all the white space, then after less and less white space, then (when
  the line starts with a backslash) at the backslash itself.
\<close>

definition execDefinition :: "jsstring \<Rightarrow> jsstring list option" where
  "execDefinition line =
     (let b = (if take 1 line = [BACKSLASH] then 1 else 0);
          most = length (takeWhile isSpace (drop b line));
          starts = map (\<lambda>w. b + w) (rev [0..<Suc most]) @ (if b = 1 then [0] else [])
      in firstSome (termFrom line) starts)"

fun exec :: "RegExp \<Rightarrow> jsstring \<Rightarrow> jsstring list option" where
  "exec UnorderedRe line = execUnordered line"
| "exec OrderedRe line = execOrdered line"
| "exec DefinitionRe line = execDefinition line"

record Definition =
  matchRe :: RegExp
  listOpenTag :: jsstring
  listCloseTag :: jsstring
  itemOpenTag :: jsstring
  itemCloseTag :: jsstring
  termOpenTag :: "jsstring option"
  termCloseTag :: "jsstring option"

definition defs :: "Definition list" where
  "defs =
     [\<lparr>matchRe = UnorderedRe, listOpenTag = str ''<ul>'', listCloseTag = str ''</ul>'',
       itemOpenTag = str ''<li>'', itemCloseTag = str ''</li>'',
       termOpenTag = None, termCloseTag = None\<rparr>,
      \<lparr>matchRe = OrderedRe, listOpenTag = str ''<ol>'', listCloseTag = str ''</ol>'',
       itemOpenTag = str ''<li>'', itemCloseTag = str ''</li>'',
       termOpenTag = None, termCloseTag = None\<rparr>,
      \<lparr>matchRe = DefinitionRe, listOpenTag = str ''<dl>'', listCloseTag = str ''</dl>'',
       itemOpenTag = str ''<dd>'', itemCloseTag = str ''</dd>'',
       termOpenTag = Some (str ''<dt>''), termCloseTag = Some (str ''</dt>'')\<rparr>]"

text \<open>Information about a matched list item element.\<close>

record ItemState =
  itemMatch :: "jsstring list"
  itemDef :: Definition
  itemId :: jsstring

text \<open>
  What \<open>matchItem\<close> returns when it is not \<open>null\<close>: a filled \<open>ItemState\<close>, or the empty
  object \<open>{}\<close> that stands for an attached Delimited Block.
\<close>

datatype found = Item ItemState | Block

section \<open>Reader and Writer\<close>

text \<open>
  Modelled from the spec: the module \<open>io\<close> (classes \<open>Reader\<close> and \<open>Writer\<close>) is not among
  the sources. The Reader owns the ordered sequence of source lines and the index of the
  current line; it can peek at the current line, test for the end of the input, advance,
  rewrite the current line in place and skip blank lines.
\<close>

record Reader =
  lines :: "jsstring list"
  pos :: nat

definition eof :: "Reader \<Rightarrow> bool" where
  "eof r = (length (lines r) \<le> pos r)"

text \<open>\<open>reader.cursor()\<close>; \<open>None\<close> is the \<open>undefined\<close> read past the last line.\<close>

definition cursor :: "Reader \<Rightarrow> jsstring option" where
  "cursor r = (if eof r then None else Some (lines r ! pos r))"

text \<open>\<open>reader.cursor(value)\<close>; the list engine only rewrites a line it has just matched.\<close>

definition cursorSet :: "jsstring \<Rightarrow> Reader \<Rightarrow> Reader" where
  "cursorSet value r = (if eof r then r else r\<lparr>lines := (lines r)[pos r := value]\<rparr>)"

text \<open>\<open>reader.next()\<close>.\<close>

definition nextLine :: "Reader \<Rightarrow> Reader" where
  "nextLine r = (if eof r then r else r\<lparr>pos := Suc (pos r)\<rparr>)"

definition remaining :: "Reader \<Rightarrow> nat" where
  "remaining r = length (lines r) - pos r"

text \<open>\<open>reader.skipBlankLines()\<close>: a line is blank when trimming it leaves nothing.\<close>

function skipBlankLines :: "Reader \<Rightarrow> Reader" where
  "skipBlankLines r =
     (if \<not> eof r \<and> list_all isSpace (lines r ! pos r) then skipBlankLines (nextLine r) else r)"
  by pat_completeness auto
termination
  by (relation "measure remaining") (auto simp: remaining_def eof_def nextLine_def)

declare skipBlankLines.simps [simp del]

text \<open>
  The Writer owns the sequence of the fragments written so far. Each fragment is kept
  together with the role of the \<open>writer.write\<close> statement that produced it, so that the writes
  of a given tag can be counted (\<open>writeFrag\<close> is \<open>writer.write\<close>); \<open>toString\<close> joins the fragments and ignores the roles.
\<close>

datatype role =
  ListOpen | ListClose | ItemOpen | ItemClose | TermOpen | TermClose | TermText | ItemText
  | Other

type_synonym Writer = "(role \<times> jsstring) list"

definition writeFrag :: "role \<Rightarrow> jsstring \<Rightarrow> Writer \<Rightarrow> Writer" where
  "writeFrag k text w = w @ [(k, text)]"

definition toString :: "Writer \<Rightarrow> jsstring" where
  "toString w = concat (map snd w)"

section \<open>The state of a render and the other modules\<close>

text \<open>
  The reader and the writer passed to the list engine, the module variable \<open>ids\<close> (the
  stack of the open list IDs, innermost last) and \<open>env\<close>, which stands for the state of the
  other modules (pending block attributes, macros, options).
\<close>

record 'x state =
  reader :: Reader
  writer :: Writer
  ids :: "jsstring list"
  env :: 'x

text \<open>
  The functions of the modules \<open>utils\<close> and \<open>delimitedblocks\<close> that the list engine calls.
  They are not among the sources and are taken as parameters:
  \<^item> \<open>replaceInline\<close> is \<open>utils.replaceInline(text, {macros: true, spans: true})\<close>;
  \<^item> \<open>injectHtmlAttributes\<close> is \<open>utils.injectHtmlAttributes(tag, lineBlocks.blockAttributes)\<close>;
  \<^item> \<open>dbRender\<close> is \<open>delimitedBlocks.render(reader, writer)\<close>, whose result the list engine
    ignores. It may render lists of its own, so it is given the whole state, \<open>ids\<close>
    included;
  \<^item> \<open>openMatch name line\<close> is \<open>delimitedBlocks.getDefinition(name).openMatch.test(line)\<close>.
\<close>

record 'x ext =
  replaceInline :: "'x \<Rightarrow> jsstring \<Rightarrow> jsstring \<times> 'x"
  injectHtmlAttributes :: "'x \<Rightarrow> jsstring \<Rightarrow> jsstring \<times> 'x"
  dbRender :: "'x state \<Rightarrow> 'x state"
  openMatch :: "string \<Rightarrow> jsstring \<Rightarrow> bool"

section \<open>matchItem\<close>

text \<open>
  The line that \<open>matchItem\<close> hands to \<open>exec\<close> and \<open>test\<close>. Every call of \<open>matchItem\<close> in the
  list engine follows a test that the reader is not at the end of the input; there,
  JavaScript would convert the \<open>undefined\<close> line to the text \<open>undefined\<close>.
\<close>

definition cursorLine :: "Reader \<Rightarrow> jsstring" where
  "cursorLine r = (case cursor r of None \<Rightarrow> str ''undefined'' | Some line \<Rightarrow> line)"

text \<open>
  The loop over \<open>defs\<close> (lines 189 to 201). \<open>None\<close>: no definition matched and the loop
  ran to its end; otherwise the reader and the value returned from inside the loop.
\<close>

fun matchDefs :: "Definition list \<Rightarrow> Reader \<Rightarrow> jsstring \<Rightarrow> (Reader \<times> found option) option" where
  "matchDefs [] r line = None"
| "matchDefs (d # ds) r line =
     (case exec (matchRe d) line of
        None \<Rightarrow> matchDefs ds r line
      | Some m \<Rightarrow>
          if take 1 (hd m) = [BACKSLASH]
          then Some (cursorSet (drop 1 (cursorLine r)) r, None)
          else Some (r, Some (Item \<lparr>itemMatch = m, itemDef = d, itemId = m ! (length m - 2)\<rparr>)))"

definition matchItem :: "'x ext \<Rightarrow> Reader \<Rightarrow> string list \<Rightarrow> Reader \<times> found option" where
  "matchItem X r attachments =
     (let line = cursorLine r
      in case matchDefs defs r line of
           Some res \<Rightarrow> res
         | None \<Rightarrow>
             if list_ex (\<lambda>name. openMatch X name line) attachments
             then (r, Some Block) else (r, None))"

section \<open>readToNext\<close>

text \<open>The names of the Delimited Blocks that may be attached to a list item: right after
  its text (line 167) and after a single blank line (line 165).\<close>

definition textAttachments :: "string list" where
  "textAttachments = [''comment'', ''code'', ''division'', ''html'', ''quote'', ''quote-paragraph'']"

definition blankLineAttachments :: "string list" where
  "blankLineAttachments = [''indented'']"

text \<open>
  Writes the text of the list item from the reader to the writer, up to the next list
  related element, which it returns (\<open>None\<close> when there is none).
\<close>

function readToNext :: "'x ext \<Rightarrow> Reader \<Rightarrow> Writer \<Rightarrow> Reader \<times> Writer \<times> found option" where
  "readToNext X r w =
     (if eof r then (r, w, None)
      else if cursor r = Some [] then
        (let r1 = nextLine r
         in if cursor r1 = Some [] then (r1, w, None)
            else if eof r1 then (r1, w, None)
            else (case matchItem X r1 blankLineAttachments of (r2, nx) \<Rightarrow> (r2, w, nx)))
      else
        (case matchItem X r textAttachments of
           (r1, nx) \<Rightarrow>
             if nx \<noteq> None then (r1, w, nx)
             else readToNext X (nextLine r1)
                    (writeFrag ItemText [NL] (writeFrag ItemText (cursorLine r1) w))))"
  by pat_completeness auto
termination
proof (relation "measure (\<lambda>(X, r, w). remaining r)", goal_cases)
  case 1
  show ?case by simp
next
  case (2 X r w x1 x2)
  have defs_keep: "remaining r' = remaining r \<and> eof r' = eof r"
    if "matchDefs ds r line = Some (r', nx)" for ds line r' nx
    using that
    by (induction ds) (auto simp: remaining_def eof_def cursorSet_def split: option.splits if_splits)
  from 2 have "remaining x1 = remaining r \<and> eof x1 = eof r"
    by (auto simp: matchItem_def Let_def split: option.splits if_splits dest: defs_keep)
  with 2 show ?case
    by (auto simp: remaining_def eof_def nextLine_def)
qed

declare readToNext.simps [simp del]

section \<open>renderList and renderListItem\<close>

datatype error = PrematureEof | TypeError

text \<open>\<open>match[i]\<close>; the arrays that \<open>exec\<close> returns have three or four elements, and a read
  past the end, which the list engine never makes, would give \<open>undefined\<close>.\<close>

definition group :: "jsstring list \<Rightarrow> nat \<Rightarrow> jsstring" where
  "group m i = (if i < length m then m ! i else [])"

text \<open>A tag that only definition lists have; writing \<open>undefined\<close> adds nothing to the
  joined output.\<close>

definition termTag :: "jsstring option \<Rightarrow> jsstring" where
  "termTag t = (case t of None \<Rightarrow> [] | Some tag \<Rightarrow> tag)"

text \<open>\<open>nextItem.id\<close> as a condition (line 114): a list item is an element with a non-empty
  ID; the empty object of an attached Delimited Block has none.\<close>

fun listItem :: "found \<Rightarrow> ItemState option" where
  "listItem (Item it) = (if itemId it = [] then None else Some it)"
| "listItem Block = None"

text \<open>Lines 88 to 107 of \<open>renderListItem\<close>: everything before its loop. The result is the
  next element and the state.\<close>

definition renderItemText :: "'x ext \<Rightarrow> ItemState \<Rightarrow> 'x state \<Rightarrow> found option \<times> 'x state" where
  "renderItemText X startItem s =
     (let d = itemDef startItem;
          m = itemMatch startItem;
          s1 = (if length m = 4 then
                  (case replaceInline X (env s) (group m 1) of
                     (text, e) \<Rightarrow>
                       s\<lparr>writer := writeFrag TermClose (termTag (termCloseTag d))
                                     (writeFrag TermText text
                                       (writeFrag TermOpen (termTag (termOpenTag d)) (writer s))),
                         env := e\<rparr>)
                else s);
          s2 = s1\<lparr>writer := writeFrag ItemOpen (itemOpenTag d) (writer s1)\<rparr>;
          ls = writeFrag ItemText [NL] (writeFrag ItemText (group m (length m - 1)) [])
      in case readToNext X (nextLine (reader s2)) ls of
           (r, ls', nextItem) \<Rightarrow>
             (case replaceInline X (env s2) (toString ls') of
                (text, e) \<Rightarrow>
                  (nextItem,
                   s2\<lparr>reader := r, writer := writeFrag ItemText text (writer s2), env := e\<rparr>)))"

text \<open>Lines 130 to 134: an attached Delimited Block is rendered with a fresh stack of
  IDs, the saved one is put back and the blank lines after the block are skipped.\<close>

definition renderAttached :: "'x ext \<Rightarrow> 'x state \<Rightarrow> 'x state" where
  "renderAttached X s =
     (let savedIds = ids s;
          s1 = dbRender X (s\<lparr>ids := []\<rparr>);
          s2 = s1\<lparr>ids := savedIds\<rparr>
      in s2\<lparr>reader := skipBlankLines (reader s2)\<rparr>)"

definition closeItem :: "Definition \<Rightarrow> 'x state \<Rightarrow> 'x state" where
  "closeItem d s = s\<lparr>writer := writeFrag ItemClose (itemCloseTag d) (writer s)\<rparr>"

text \<open>
  The two functions and their two \<open>while (true)\<close> loops. The first argument bounds the
  depth of the calls: \<open>None\<close> means that it was used up before the function returned.
  A result \<open>Some (nextItem, s)\<close> is the returned item (\<open>None\<close> for \<open>null\<close>) and the state.
\<close>

fun renderList :: "nat \<Rightarrow> 'x ext \<Rightarrow> ItemState \<Rightarrow> 'x state \<Rightarrow> (ItemState option \<times> 'x state) option"
  and renderListLoop :: "nat \<Rightarrow> 'x ext \<Rightarrow> ItemState \<Rightarrow> 'x state \<Rightarrow> (ItemState option \<times> 'x state) option"
  and renderListItem :: "nat \<Rightarrow> 'x ext \<Rightarrow> ItemState \<Rightarrow> 'x state \<Rightarrow> (ItemState option \<times> 'x state) option"
  and renderListItemLoop :: "nat \<Rightarrow> 'x ext \<Rightarrow> Definition \<Rightarrow> found option \<Rightarrow> 'x state \<Rightarrow> (ItemState option \<times> 'x state) option"
where
  "renderList 0 X startItem s = None"
| "renderList (Suc n) X startItem s =
     (case injectHtmlAttributes X (env s) (listOpenTag (itemDef startItem)) of
        (tag, e) \<Rightarrow>
          renderListLoop n X startItem
            (s\<lparr>ids := ids s @ [itemId startItem],
               writer := writeFrag ListOpen tag (writer s), env := e\<rparr>))"
| "renderListLoop 0 X startItem s = None"
| "renderListLoop (Suc n) X startItem s =
     (case renderListItem n X startItem s of
        None \<Rightarrow> None
      | Some (None, s1) \<Rightarrow>
          Some (None, s1\<lparr>writer := writeFrag ListClose (listCloseTag (itemDef startItem)) (writer s1),
                         ids := butlast (ids s1)\<rparr>)
      | Some (Some nextItem, s1) \<Rightarrow>
          if itemId nextItem \<noteq> itemId startItem
          then Some (Some nextItem,
                 s1\<lparr>writer := writeFrag ListClose (listCloseTag (itemDef startItem)) (writer s1),
                    ids := butlast (ids s1)\<rparr>)
          else renderListLoop n X nextItem s1)"
| "renderListItem 0 X startItem s = None"
| "renderListItem (Suc n) X startItem s =
     (case renderItemText X startItem s of
        (nextItem, s1) \<Rightarrow> renderListItemLoop n X (itemDef startItem) nextItem s1)"
| "renderListItemLoop 0 X d nextItem s = None"
| "renderListItemLoop (Suc n) X d None s = Some (None, closeItem d s)"
| "renderListItemLoop (Suc n) X d (Some f) s =
     (case listItem f of
        Some it \<Rightarrow>
          if itemId it \<in> set (ids s) then Some (Some it, closeItem d s)
          else (case renderList n X it s of
                  None \<Rightarrow> None
                | Some (nextItem, s1) \<Rightarrow> Some (nextItem, closeItem d s1))
      | None \<Rightarrow>
          (let s1 = renderAttached X s
           in if eof (reader s1) then Some (None, closeItem d s1)
              else (case matchItem X (reader s1) [] of
                      (r, nextItem) \<Rightarrow> renderListItemLoop n X d nextItem (s1\<lparr>reader := r\<rparr>))))"

section \<open>render\<close>

text \<open>
  \<open>Inl\<close> is a throw. With the empty list of attachments \<open>matchItem\<close> never returns the
  empty object; if it did, \<open>renderList\<close> would read \<open>startItem.def.listOpenTag\<close> of an
  \<open>undefined\<close> definition, which is a TypeError.
\<close>

definition render :: "nat \<Rightarrow> 'x ext \<Rightarrow> 'x state \<Rightarrow> (error + bool \<times> 'x state) option" where
  "render n X s =
     (if eof (reader s) then Some (Inl PrematureEof)
      else case matchItem X (reader s) [] of
             (r, None) \<Rightarrow> Some (Inr (False, s\<lparr>reader := r\<rparr>))
           | (r, Some Block) \<Rightarrow> Some (Inl TypeError)
           | (r, Some (Item startItem)) \<Rightarrow>
               (case renderList n X startItem (s\<lparr>reader := r, ids := []\<rparr>) of
                  None \<Rightarrow> None
                | Some (nextItem, s1) \<Rightarrow> Some (Inr (True, s1))))"

section \<open>Counting tags, and what is assumed of the other modules\<close>

text \<open>The number of fragments that the \<open>writer.write\<close> statements of role \<open>k\<close> have
  produced.\<close>

definition countRole :: "role \<Rightarrow> Writer \<Rightarrow> nat" where
  "countRole k w = length (filter (\<lambda>f. fst f = k) w)"

text \<open>
  What the list engine relies on from \<open>delimitedBlocks.render\<close>: it uses the reader and
  the writer through their operations, so the reader does not move backwards (no more
  lines are left after the call than before) and the writer only grows, by fragments of
  the Delimited Block engine's own.
\<close>

definition delimitedBlocksContract :: "'x ext \<Rightarrow> bool" where
  "delimitedBlocksContract X =
     (\<forall>s. remaining (reader (dbRender X s)) \<le> remaining (reader s)
        \<and> (\<exists>frs. writer (dbRender X s) = writer s @ frs \<and> list_all (\<lambda>f. fst f = Other) frs))"

text \<open>Writes of role \<open>a\<close> less writes of role \<open>b\<close>: how many tags opened by \<open>a\<close> are not
  yet closed by \<open>b\<close>.\<close>

definition depth :: "role \<Rightarrow> role \<Rightarrow> Writer \<Rightarrow> int" where
  "depth a b w = int (countRole a w) - int (countRole b w)"

text \<open>The texts that the ID group of each expression can capture.\<close>

definition markers :: "RegExp \<Rightarrow> jsstring list" where
  "markers re =
     (case re of
        UnorderedRe \<Rightarrow> [str ''-'', str ''+'', str ''*'', str ''**'', str ''***'', str ''****'']
      | OrderedRe \<Rightarrow> [str ''.'', str ''..'', str ''...'', str ''....'']
      | DefinitionRe \<Rightarrow> [str ''::'', str '':::'', str ''::::''])"

text \<open>A depth of calls that is enough for a render that starts at this reader.\<close>

definition fuelFor :: "Reader \<Rightarrow> nat" where
  "fuelFor r = 5 * remaining r + 4"

text \<open>
  Externals for closed examples: text without inline markup and no pending block
  attributes (both functions return their argument), a Delimited Block engine that
  renders the current line as it is and leaves an empty stack of IDs behind, as a nested
  render would, and an indented block that opens with two spaces.
\<close>

definition exampleExt :: "unit ext" where
  "exampleExt =
     \<lparr>replaceInline = (\<lambda>e text. (text, e)),
      injectHtmlAttributes = (\<lambda>e tag. (tag, e)),
      dbRender = (\<lambda>s. s\<lparr>reader := nextLine (reader s),
                          writer := writeFrag Other (cursorLine (reader s)) (writer s),
                          ids := []\<rparr>),
      openMatch = (\<lambda>name line. name = ''indented'' \<and> take 2 line = str ''  '')\<rparr>"

text \<open>
  The same externals with a Delimited Block engine that writes the stack of IDs it is
  called with and leaves another stack behind.
\<close>

definition probeExt :: "unit ext" where
  "probeExt =
     exampleExt
       \<lparr>dbRender := (\<lambda>s. s\<lparr>reader := nextLine (reader s),
                               writer := writeFrag Other (str ''ids:'' @ concat (ids s)) (writer s),
                               ids := [str ''left behind'']\<rparr>)\<rparr>"

text \<open>A fresh reader over the lines, an empty writer and an empty stack.\<close>

definition start :: "jsstring list \<Rightarrow> unit state" where
  "start ls = \<lparr>reader = \<lparr>lines = ls, pos = 0\<rparr>, writer = [], ids = [], env = ()\<rparr>"

text \<open>\<open>render\<close> from \<open>start\<close>, and then \<open>writer.toString()\<close> with the position of the reader.\<close>

definition renderString :: "nat \<Rightarrow> unit ext \<Rightarrow> jsstring list \<Rightarrow> (error + bool \<times> nat \<times> jsstring) option" where
  "renderString n X ls =
     (case render n X (start ls) of
        None \<Rightarrow> None
      | Some (Inl e) \<Rightarrow> Some (Inl e)
      | Some (Inr (b, s)) \<Rightarrow> Some (Inr (b, pos (reader s), toString (writer s))))"

section \<open>Reader, regular expressions and matchItem\<close>

lemma ids_renderItemText: "renderItemText X it s = (nx, s1) \<Longrightarrow> ids s1 = ids s"
  by (auto simp: renderItemText_def Let_def split: prod.splits if_splits)

lemma ids_renderAttached: "ids (renderAttached X s) = ids s"
  by (simp add: renderAttached_def Let_def)

lemma ids_closeItem: "ids (closeItem d s) = ids s"
  by (simp add: closeItem_def)

lemma listItem_SomeD: "listItem f = Some it \<Longrightarrow> f = Item it \<and> itemId it \<noteq> []"
  by (cases f) (auto split: if_splits)

lemma ids_invariant:
  "(\<forall>(X :: 'x ext) it s nx s1. renderList n X it s = Some (nx, s1) \<longrightarrow>
      ids s1 = ids s \<and> (\<forall>j. nx = Some j \<longrightarrow> itemId j \<in> set (ids s)))
 \<and> (\<forall>(X :: 'x ext) it s nx s1. renderListLoop n X it s = Some (nx, s1) \<longrightarrow>
      ids s1 = butlast (ids s) \<and>
      (\<forall>j. nx = Some j \<longrightarrow> itemId j \<in> set (ids s) \<and> itemId j \<noteq> itemId it))
 \<and> (\<forall>(X :: 'x ext) it s nx s1. renderListItem n X it s = Some (nx, s1) \<longrightarrow>
      ids s1 = ids s \<and> (\<forall>j. nx = Some j \<longrightarrow> itemId j \<in> set (ids s)))
 \<and> (\<forall>(X :: 'x ext) d f s nx s1. renderListItemLoop n X d f s = Some (nx, s1) \<longrightarrow>
      ids s1 = ids s \<and> (\<forall>j. nx = Some j \<longrightarrow> itemId j \<in> set (ids s)))"
proof (induction n)
  case 0
  show ?case by simp
next
  case (Suc n)
  note L = Suc.IH [THEN conjunct1, rule_format]
  note LL = Suc.IH [THEN conjunct2, THEN conjunct1, rule_format]
  note I = Suc.IH [THEN conjunct2, THEN conjunct2, THEN conjunct1, rule_format]
  note IL = Suc.IH [THEN conjunct2, THEN conjunct2, THEN conjunct2, rule_format]
  have c1: "ids s1 = ids s \<and> (\<forall>j. nx = Some j \<longrightarrow> itemId j \<in> set (ids s))"
    if "renderList (Suc n) X it s = Some (nx, s1)" for X :: "'x ext" and it s nx s1
    using that by (auto split: prod.splits dest!: LL)
  have c2: "ids s1 = butlast (ids s) \<and>
      (\<forall>j. nx = Some j \<longrightarrow> itemId j \<in> set (ids s) \<and> itemId j \<noteq> itemId it)"
    if "renderListLoop (Suc n) X it s = Some (nx, s1)" for X :: "'x ext" and it s nx s1
    using that
    by (auto split: prod.splits option.splits if_splits dest!: LL I)
  have c3: "ids s1 = ids s \<and> (\<forall>j. nx = Some j \<longrightarrow> itemId j \<in> set (ids s))"
    if "renderListItem (Suc n) X it s = Some (nx, s1)" for X :: "'x ext" and it s nx s1
    using that
    by (auto split: prod.splits dest!: IL ids_renderItemText)
  have c4: "ids s1 = ids s \<and> (\<forall>j. nx = Some j \<longrightarrow> itemId j \<in> set (ids s))"
    if "renderListItemLoop (Suc n) X d f s = Some (nx, s1)" for X :: "'x ext" and d f s nx s1
  proof (cases f)
    case None
    with that show ?thesis by (auto simp: ids_closeItem)
  next
    case (Some g)
    with that show ?thesis
      by (auto simp: ids_closeItem ids_renderAttached Let_def
          split: prod.splits option.splits if_splits dest!: IL L listItem_SomeD)
  qed
  from c1 c2 c3 c4 show ?case by blast
qed

lemma remaining_nextLine: "remaining (nextLine r) \<le> remaining r"
  by (auto simp: remaining_def nextLine_def)

lemma remaining_nextLine_less: "\<not> eof r \<Longrightarrow> remaining (nextLine r) < remaining r"
  by (auto simp: remaining_def nextLine_def eof_def)

lemma eof_remaining: "eof r \<longleftrightarrow> remaining r = 0"
  by (auto simp: remaining_def eof_def)

lemma skipBlankLines_blank:
  "\<not> eof r \<Longrightarrow> list_all isSpace (lines r ! pos r) \<Longrightarrow> skipBlankLines r = skipBlankLines (nextLine r)"
  by (subst skipBlankLines.simps) simp

lemma skipBlankLines_stop:
  "eof r \<or> \<not> list_all isSpace (lines r ! pos r) \<Longrightarrow> skipBlankLines r = r"
  by (subst skipBlankLines.simps) auto

lemma remaining_skipBlankLines: "remaining (skipBlankLines r) \<le> remaining r"
proof (induction r rule: skipBlankLines.induct)
  case (1 r)
  show ?case
  proof (cases "\<not> eof r \<and> list_all isSpace (lines r ! pos r)")
    case True
    with 1 remaining_nextLine [of r] show ?thesis
      by (simp add: skipBlankLines_blank)
  next
    case False
    then show ?thesis by (simp add: skipBlankLines_stop)
  qed
qed

lemma skipBlankLines_stops:
  "eof (skipBlankLines r) \<or> \<not> list_all isSpace (lines (skipBlankLines r) ! pos (skipBlankLines r))"
proof (induction r rule: skipBlankLines.induct)
  case (1 r)
  show ?case
  proof (cases "\<not> eof r \<and> list_all isSpace (lines r ! pos r)")
    case True
    with 1 show ?thesis
      by (simp add: skipBlankLines_blank)
  next
    case False
    then show ?thesis by (auto simp add: skipBlankLines_stop)
  qed
qed

lemma readToNext_eof: "eof r \<Longrightarrow> readToNext X r w = (r, w, None)"
  by (subst readToNext.simps) simp

lemma readToNext_blank:
  "\<not> eof r \<Longrightarrow> cursor r = Some [] \<Longrightarrow>
   readToNext X r w =
     (if cursor (nextLine r) = Some [] \<or> eof (nextLine r) then (nextLine r, w, None)
      else (fst (matchItem X (nextLine r) blankLineAttachments), w,
            snd (matchItem X (nextLine r) blankLineAttachments)))"
  by (subst readToNext.simps) (simp add: Let_def split: prod.splits)

lemma readToNext_element:
  "\<not> eof r \<Longrightarrow> cursor r \<noteq> Some [] \<Longrightarrow> snd (matchItem X r textAttachments) \<noteq> None \<Longrightarrow>
   readToNext X r w = (fst (matchItem X r textAttachments), w, snd (matchItem X r textAttachments))"
  by (subst readToNext.simps) (auto simp add: Let_def split: prod.splits)

lemma readToNext_text:
  "\<not> eof r \<Longrightarrow> cursor r \<noteq> Some [] \<Longrightarrow> snd (matchItem X r textAttachments) = None \<Longrightarrow>
   readToNext X r w =
     readToNext X (nextLine (fst (matchItem X r textAttachments)))
       (writeFrag ItemText [NL]
          (writeFrag ItemText (cursorLine (fst (matchItem X r textAttachments))) w))"
  by (subst readToNext.simps) (auto simp add: Let_def split: prod.splits)

lemma matchDefs_remaining:
  "matchDefs ds r line = Some (r', nx) \<Longrightarrow> remaining r' = remaining r \<and> eof r' = eof r"
  by (induction ds) (auto simp: remaining_def eof_def cursorSet_def split: option.splits if_splits)

lemma matchItem_remaining:
  "matchItem X r atts = (r', nx) \<Longrightarrow> remaining r' = remaining r \<and> eof r' = eof r"
  by (auto simp: matchItem_def Let_def split: option.splits if_splits dest: matchDefs_remaining)

lemma matchItem_fst_remaining: "remaining (fst (matchItem X r atts)) = remaining r"
  using matchItem_remaining [of X r atts] by (cases "matchItem X r atts") simp

lemma matchItem_fst_eof: "eof (fst (matchItem X r atts)) = eof r"
  using matchItem_remaining [of X r atts] by (cases "matchItem X r atts") simp

lemma remaining_readToNext: "remaining (fst (readToNext X r w)) \<le> remaining r"
proof (induction "remaining r" arbitrary: r w rule: less_induct)
  case less
  show ?case
  proof (cases "eof r")
    case True
    then show ?thesis by (simp add: readToNext_eof)
  next
    case False
    note ne = this
    show ?thesis
    proof (cases "cursor r = Some []")
      case True
      with ne remaining_nextLine [of r] show ?thesis
        by (simp add: readToNext_blank matchItem_fst_remaining)
    next
      case False
      note nb = this
      show ?thesis
      proof (cases "snd (matchItem X r textAttachments) = None")
        case True
        let ?r1 = "nextLine (fst (matchItem X r textAttachments))"
        from ne have lt: "remaining ?r1 < remaining r"
          using remaining_nextLine_less [of "fst (matchItem X r textAttachments)"]
          by (simp add: matchItem_fst_remaining matchItem_fst_eof)
        have "remaining (fst (readToNext X r w)) \<le> remaining ?r1"
          using less [OF lt] ne nb True by (simp add: readToNext_text)
        with lt show ?thesis by simp
      next
        case False
        with ne nb show ?thesis
          by (simp add: readToNext_element matchItem_fst_remaining)
      qed
    qed
  qed
qed

lemma contract_remaining:
  "delimitedBlocksContract X \<Longrightarrow> remaining (reader (dbRender X s)) \<le> remaining (reader s)"
  by (simp add: delimitedBlocksContract_def)

lemma remaining_renderAttached:
  "delimitedBlocksContract X \<Longrightarrow> remaining (reader (renderAttached X s)) \<le> remaining (reader s)"
  using contract_remaining [of X "s\<lparr>ids := []\<rparr>"]
    remaining_skipBlankLines [of "reader (dbRender X (s\<lparr>ids := []\<rparr>))"]
  by (simp add: renderAttached_def Let_def)

lemma remaining_renderItemText:
  assumes "renderItemText X it s = (nx, s1)"
  shows "remaining (reader s1) \<le> remaining (reader s)"
    and "\<not> eof (reader s) \<Longrightarrow> remaining (reader s1) < remaining (reader s)"
    and "eof (reader s) \<Longrightarrow> nx = None"
proof -
  let ?s1 = "if length (itemMatch it) = 4 then
                  (case replaceInline X (env s) (group (itemMatch it) 1) of
                     (text, e) \<Rightarrow>
                       s\<lparr>writer := writeFrag TermClose (termTag (termCloseTag (itemDef it)))
                                     (writeFrag TermText text
                                       (writeFrag TermOpen (termTag (termOpenTag (itemDef it))) (writer s))),
                         env := e\<rparr>)
                else s"
  have r1: "reader ?s1 = reader s" by (simp split: prod.splits)
  let ?ls = "writeFrag ItemText [NL] (writeFrag ItemText (group (itemMatch it) (length (itemMatch it) - 1)) [])"
  let ?res = "readToNext X (nextLine (reader s)) ?ls"
  from assms have rd: "reader s1 = fst ?res" and nx: "nx = snd (snd ?res)"
    unfolding renderItemText_def Let_def r1
    by (auto simp: r1 split: prod.splits)
  have le: "remaining (reader s1) \<le> remaining (nextLine (reader s))"
    unfolding rd by (rule remaining_readToNext)
  with remaining_nextLine [of "reader s"] show "remaining (reader s1) \<le> remaining (reader s)"
    by simp
  show "remaining (reader s1) < remaining (reader s)" if "\<not> eof (reader s)"
    using le remaining_nextLine_less [OF that] by simp
  show "nx = None" if "eof (reader s)"
  proof -
    from that have "eof (nextLine (reader s))" by (simp add: nextLine_def)
    then show ?thesis unfolding nx by (simp add: readToNext_eof)
  qed
qed

lemma remaining_closeItem: "remaining (reader (closeItem d s)) = remaining (reader s)"
  by (simp add: closeItem_def)

lemma progress:
  assumes C: "delimitedBlocksContract (X :: 'x ext)"
  shows
  "(\<forall>it s nx s1. renderList n X it s = Some (nx, s1) \<longrightarrow>
      remaining (reader s1) \<le> remaining (reader s))
 \<and> (\<forall>it s nx s1. renderListLoop n X it s = Some (nx, s1) \<longrightarrow>
      remaining (reader s1) \<le> remaining (reader s))
 \<and> (\<forall>it s nx s1. renderListItem n X it s = Some (nx, s1) \<longrightarrow>
      remaining (reader s1) \<le> remaining (reader s)
      \<and> (nx \<noteq> None \<longrightarrow> remaining (reader s1) < remaining (reader s)))
 \<and> (\<forall>d f s nx s1. renderListItemLoop n X d f s = Some (nx, s1) \<longrightarrow>
      remaining (reader s1) \<le> remaining (reader s))"
proof (induction n)
  case 0
  show ?case by simp
next
  case (Suc n)
  note L = Suc.IH [THEN conjunct1, rule_format]
  note LL = Suc.IH [THEN conjunct2, THEN conjunct1, rule_format]
  note I = Suc.IH [THEN conjunct2, THEN conjunct2, THEN conjunct1, rule_format]
  note IL = Suc.IH [THEN conjunct2, THEN conjunct2, THEN conjunct2, rule_format]
  have c1: "remaining (reader s1) \<le> remaining (reader s)"
    if "renderList (Suc n) X it s = Some (nx, s1)" for it s nx s1
    using that by (auto split: prod.splits dest!: LL)
  have c2: "remaining (reader s1) \<le> remaining (reader s)"
    if "renderListLoop (Suc n) X it s = Some (nx, s1)" for it s nx s1
    using that
    by (fastforce split: prod.splits option.splits if_splits dest!: LL I)
  have c3: "remaining (reader s1) \<le> remaining (reader s)
      \<and> (nx \<noteq> None \<longrightarrow> remaining (reader s1) < remaining (reader s))"
    if "renderListItem (Suc n) X it s = Some (nx, s1)" for it s nx s1
  proof -
    from that obtain f s0 where t: "renderItemText X it s = (f, s0)"
      and l: "renderListItemLoop n X (itemDef it) f s0 = Some (nx, s1)"
      by (auto split: prod.splits)
    from IL [OF l] have le: "remaining (reader s1) \<le> remaining (reader s0)" .
    show ?thesis
    proof (cases "eof (reader s)")
      case True
      with remaining_renderItemText(3) [OF t] have "f = None" by simp
      with l have "nx = None" by (cases n) auto
      with le remaining_renderItemText(1) [OF t] show ?thesis by simp
    next
      case False
      with le remaining_renderItemText(2) [OF t] show ?thesis by simp
    qed
  qed
  have c4: "remaining (reader s1) \<le> remaining (reader s)"
    if "renderListItemLoop (Suc n) X d f s = Some (nx, s1)" for d f s nx s1
  proof (cases f)
    case None
    with that show ?thesis by (auto simp: remaining_closeItem)
  next
    case (Some g)
    show ?thesis
    proof (cases "listItem g")
      case (Some it)
      with that \<open>f = Some g\<close> show ?thesis
        by (auto simp: remaining_closeItem split: option.splits if_splits dest!: L)
    next
      case None
      let ?s1 = "renderAttached X s"
      have a: "remaining (reader ?s1) \<le> remaining (reader s)"
        by (rule remaining_renderAttached [OF C])
      show ?thesis
      proof (cases "eof (reader ?s1)")
        case True
        with that \<open>f = Some g\<close> None a show ?thesis
          by (auto simp: Let_def remaining_closeItem)
      next
        case False
        with that \<open>f = Some g\<close> None
        have "renderListItemLoop n X d (snd (matchItem X (reader ?s1) []))
                (?s1\<lparr>reader := fst (matchItem X (reader ?s1) [])\<rparr>) = Some (nx, s1)"
          by (auto simp: Let_def split: prod.splits)
        from IL [OF this] a show ?thesis
          by (simp add: matchItem_fst_remaining)
      qed
    qed
  qed
  from c1 c2 c3 c4 show ?case by blast
qed

lemma takeWhile_eq_replicate: "takeWhile (\<lambda>c. c = a) s = replicate (length (takeWhile (\<lambda>c. c = a) s)) a"
  by (induction s) auto

lemma firstSome_SomeD: "firstSome f xs = Some y \<Longrightarrow> \<exists>x \<in> set xs. f x = Some y"
  by (induction xs) (auto split: option.splits)

lemma firstSome_None: "firstSome f xs = None \<longleftrightarrow> (\<forall>x \<in> set xs. f x = None)"
  by (induction xs) (auto split: option.splits)

lemma unorderedMarker_cases:
  "unorderedMarker s = [MINUS] \<or> unorderedMarker s = [PLUS]
   \<or> unorderedMarker s = replicate (length (unorderedMarker s)) STAR"
  using takeWhile_eq_replicate [of STAR s]
  by (auto simp: unorderedMarker_def split: list.splits)

lemma execUnordered_shape:
  assumes "execUnordered line = Some m"
  shows "\<exists>marker text. m = [line, marker, text] \<and>
           (marker = [MINUS] \<or> marker = [PLUS] \<or> (\<exists>k \<in> {1..4}. marker = replicate k STAR))"
proof -
  let ?s = "dropWhile isSpace (dropBackslash line)"
  let ?mk = "unorderedMarker ?s"
  from assms have ne: "?mk \<noteq> []" and le: "length ?mk \<le> 4"
    and m: "\<exists>text. m = [line, ?mk, text]"
    unfolding execUnordered_def Let_def unorderedMarker_def
    by (auto split: if_splits option.splits)
  from ne le have k: "length ?mk \<in> {1..4}"
    by (cases ?mk) auto
  with unorderedMarker_cases [of ?s] m show ?thesis
    by blast
qed

lemma execOrdered_shape:
  assumes "execOrdered line = Some m"
  shows "\<exists>marker text. m = [line, marker, text] \<and> (\<exists>k \<in> {1..4}. marker = replicate k DOT)"
proof -
  let ?s = "dropWhile isDigit (dropWhile isSpace (dropBackslash line))"
  let ?mk = "takeWhile (\<lambda>c. c = DOT) ?s"
  from assms have ne: "?mk \<noteq> []" and le: "length ?mk \<le> 4"
    and m: "\<exists>text. m = [line, ?mk, text]"
    unfolding execOrdered_def Let_def
    by (auto split: if_splits option.splits)
  from ne le have k: "length ?mk \<in> {1..4}"
    by (cases ?mk) auto
  with takeWhile_eq_replicate [of DOT ?s] m show ?thesis
    by blast
qed

lemma colonsAndDefinition_shape:
  assumes "colonsAndDefinition cs = Some (colons, defn)"
  shows "(\<exists>k \<in> {2..4}. colons = replicate k COLON) \<and> cs = colons @ defn"
proof -
  let ?c = "takeWhile (\<lambda>c. c = COLON) cs"
  from assms have c: "colons = ?c" and len: "2 \<le> length ?c" "length ?c \<le> 4"
    and d: "defn = drop (length ?c) cs"
    unfolding colonsAndDefinition_def Let_def
    by (auto split: if_splits list.splits)
  have "cs = ?c @ drop (length ?c) cs"
    by (metis append_take_drop_id takeWhile_eq_take)
  with c d len takeWhile_eq_replicate [of COLON cs] show ?thesis
    by (metis atLeastAtMost_iff)
qed

lemma termAt_shape:
  assumes "termAt line st g = Some m"
  shows "\<exists>term colons defn. m = [line, term, colons, defn] \<and> (\<exists>k \<in> {2..4}. colons = replicate k COLON)"
  using assms colonsAndDefinition_shape
  unfolding termAt_def Let_def
  by (fastforce split: if_splits option.splits)

lemma execDefinition_shape:
  assumes "execDefinition line = Some m"
  shows "\<exists>term colons defn. m = [line, term, colons, defn] \<and> (\<exists>k \<in> {2..4}. colons = replicate k COLON)"
proof -
  from assms obtain st where "termFrom line st = Some m"
    unfolding execDefinition_def Let_def by (blast dest: firstSome_SomeD)
  then obtain g where "termAt line st g = Some m"
    unfolding termFrom_def Let_def by (blast dest: firstSome_SomeD)
  then show ?thesis by (rule termAt_shape)
qed

lemma replicate_1_4: "k \<in> {1..4} \<Longrightarrow> replicate k c \<in> {[c], [c, c], [c, c, c], [c, c, c, c]}"
proof -
  assume "k \<in> {1..4}"
  then have "k = 1 \<or> k = 2 \<or> k = 3 \<or> k = 4" by auto
  then show ?thesis by (auto simp: numeral_eq_Suc)
qed

lemma replicate_2_4: "k \<in> {2..4} \<Longrightarrow> replicate k c \<in> {[c, c], [c, c, c], [c, c, c, c]}"
proof -
  assume "k \<in> {2..4}"
  then have "k = 2 \<or> k = 3 \<or> k = 4" by auto
  then show ?thesis by (auto simp: numeral_eq_Suc)
qed

lemma exec_shape:
  assumes "exec re line = Some m"
  shows "hd m = line" and "length m = (if re = DefinitionRe then 4 else 3)"
    and "m ! (length m - 2) \<in> set (markers re)"
proof -
  have "hd m = line \<and> length m = (if re = DefinitionRe then 4 else 3)
      \<and> m ! (length m - 2) \<in> set (markers re)"
  proof (cases re)
    case UnorderedRe
    with assms execUnordered_shape [of line m] obtain marker body where
      m: "m = [line, marker, body]"
      and mk: "marker = [MINUS] \<or> marker = [PLUS] \<or> (\<exists>k \<in> {1..4}. marker = replicate k STAR)"
      by auto
    from mk consider "marker = [MINUS]" | "marker = [PLUS]"
      | k where "k \<in> {1..4}" "marker = replicate k STAR" by blast
    then have "marker \<in> set (markers UnorderedRe)"
    proof cases
      case 1
      then show ?thesis by (simp add: markers_def str_def MINUS_def)
    next
      case 2
      then show ?thesis by (simp add: markers_def str_def PLUS_def)
    next
      case 3
      from replicate_1_4 [OF 3(1), of STAR] have "marker \<in> {[STAR], [STAR, STAR], [STAR, STAR, STAR], [STAR, STAR, STAR, STAR]}"
        unfolding 3(2) .
      then show ?thesis by (simp add: markers_def str_def STAR_def)
    qed
    with m UnorderedRe show ?thesis by simp
  next
    case OrderedRe
    with assms execOrdered_shape [of line m] obtain marker body where
      m: "m = [line, marker, body]"
      and mk: "\<exists>k \<in> {1..4}. marker = replicate k DOT"
      by auto
    from mk obtain k where k: "k \<in> {1..4}" "marker = replicate k DOT" by blast
    from replicate_1_4 [OF k(1), of DOT] have "marker \<in> {[DOT], [DOT, DOT], [DOT, DOT, DOT], [DOT, DOT, DOT, DOT]}"
      unfolding k(2) .
    then have "marker \<in> set (markers OrderedRe)"
      by (simp add: markers_def str_def DOT_def)
    with m OrderedRe show ?thesis by simp
  next
    case DefinitionRe
    with assms execDefinition_shape [of line m] obtain t colons defn where
      m: "m = [line, t, colons, defn]"
      and mk: "\<exists>k \<in> {2..4}. colons = replicate k COLON"
      by auto
    from mk obtain k where k: "k \<in> {2..4}" "colons = replicate k COLON" by blast
    from replicate_2_4 [OF k(1), of COLON] have "colons \<in> {[COLON, COLON], [COLON, COLON, COLON], [COLON, COLON, COLON, COLON]}"
      unfolding k(2) .
    then have "colons \<in> set (markers DefinitionRe)"
      by (simp add: markers_def str_def COLON_def)
    with m DefinitionRe show ?thesis by simp
  qed
  then show "hd m = line" and "length m = (if re = DefinitionRe then 4 else 3)"
    and "m ! (length m - 2) \<in> set (markers re)" by blast+
qed

lemma markers_nonempty: "x \<in> set (markers re) \<Longrightarrow> x \<noteq> []"
  by (cases re) (auto simp: markers_def str_def)

lemma matchDefs_Item:
  assumes "matchDefs ds r line = Some (r', Some f)"
  shows "\<exists>d m. d \<in> set ds \<and> exec (matchRe d) line = Some m \<and> r' = r
     \<and> f = Item \<lparr>itemMatch = m, itemDef = d, itemId = m ! (length m - 2)\<rparr>"
  using assms by (induction ds) (auto split: option.splits if_splits)

lemma matchItem_no_attachments:
  assumes "matchItem X r [] = (r', Some f)"
  shows "\<exists>it. f = Item it \<and> itemId it \<noteq> []"
proof -
  from assms have "matchDefs defs r (cursorLine r) = Some (r', Some f)"
    by (auto simp: matchItem_def Let_def split: option.splits)
  from matchDefs_Item [OF this] obtain d m where
    e: "exec (matchRe d) (cursorLine r) = Some m"
    and f: "f = Item \<lparr>itemMatch = m, itemDef = d, itemId = m ! (length m - 2)\<rparr>"
    by blast
  from exec_shape(3) [OF e] have "m ! (length m - 2) \<noteq> []"
    by (rule markers_nonempty)
  with f show ?thesis by simp
qed

lemma enough_fuel:
  assumes C: "delimitedBlocksContract (X :: 'x ext)"
  shows
  "(\<forall>it s. 5 * remaining (reader s) + 4 \<le> n \<longrightarrow> renderList n X it s \<noteq> None)
 \<and> (\<forall>it s. 5 * remaining (reader s) + 3 \<le> n \<longrightarrow> renderListLoop n X it s \<noteq> None)
 \<and> (\<forall>it s. 5 * remaining (reader s) + 2 \<le> n \<longrightarrow> renderListItem n X it s \<noteq> None)
 \<and> (\<forall>d f s. (f = None \<and> 1 \<le> n)
        \<or> ((\<exists>g. f = Some g \<and> listItem g \<noteq> None) \<and> 5 * remaining (reader s) + 5 \<le> n)
        \<or> 5 * remaining (reader s) + 6 \<le> n \<longrightarrow> renderListItemLoop n X d f s \<noteq> None)"
proof (induction n)
  case 0
  show ?case by simp
next
  case (Suc n)
  note L = Suc.IH [THEN conjunct1, rule_format]
  note LL = Suc.IH [THEN conjunct2, THEN conjunct1, rule_format]
  note I = Suc.IH [THEN conjunct2, THEN conjunct2, THEN conjunct1, rule_format]
  note IL = Suc.IH [THEN conjunct2, THEN conjunct2, THEN conjunct2, rule_format]
  note P = progress [OF C, of n, THEN conjunct2, THEN conjunct2, THEN conjunct1, rule_format]
  have c1: "renderList (Suc n) X it s \<noteq> None"
    if b: "5 * remaining (reader s) + 4 \<le> Suc n" for it s
  proof -
    obtain tag e where i: "injectHtmlAttributes X (env s) (listOpenTag (itemDef it)) = (tag, e)"
      by (cases "injectHtmlAttributes X (env s) (listOpenTag (itemDef it))")
    let ?s = "s\<lparr>ids := ids s @ [itemId it], writer := writeFrag ListOpen tag (writer s), env := e\<rparr>"
    from b have "5 * remaining (reader ?s) + 3 \<le> n" by simp
    from LL [OF this, of it] i show ?thesis by simp
  qed
  have c2: "renderListLoop (Suc n) X it s \<noteq> None"
    if b: "5 * remaining (reader s) + 3 \<le> Suc n" for it s
  proof -
    from b have "renderListItem n X it s \<noteq> None" by (intro I) simp
    then obtain nx s1 where r: "renderListItem n X it s = Some (nx, s1)" by auto
    show ?thesis
    proof (cases nx)
      case None
      with r show ?thesis by simp
    next
      case (Some j)
      with P [OF r] have "remaining (reader s1) < remaining (reader s)" by simp
      with b have "5 * remaining (reader s1) + 3 \<le> n" by simp
      from LL [OF this] r Some show ?thesis by simp
    qed
  qed
  have c3: "renderListItem (Suc n) X it s \<noteq> None"
    if b: "5 * remaining (reader s) + 2 \<le> Suc n" for it s
  proof -
    obtain f s0 where t: "renderItemText X it s = (f, s0)" by (cases "renderItemText X it s")
    have "renderListItemLoop n X (itemDef it) f s0 \<noteq> None"
    proof (cases "eof (reader s)")
      case True
      with remaining_renderItemText(3) [OF t] have "f = None" by simp
      with b show ?thesis by (intro IL) simp
    next
      case False
      with remaining_renderItemText(2) [OF t] b have "5 * remaining (reader s0) + 6 \<le> n"
        by simp
      then show ?thesis by (intro IL) simp
    qed
    with t show ?thesis by simp
  qed
  have c4: "renderListItemLoop (Suc n) X d f s \<noteq> None"
    if b: "(f = None \<and> 1 \<le> Suc n)
        \<or> ((\<exists>g. f = Some g \<and> listItem g \<noteq> None) \<and> 5 * remaining (reader s) + 5 \<le> Suc n)
        \<or> 5 * remaining (reader s) + 6 \<le> Suc n" for d f s
  proof (cases f)
    case None
    then show ?thesis by simp
  next
    case (Some g)
    show ?thesis
    proof (cases "listItem g")
      case (Some it)
      from b \<open>f = Some g\<close> have "5 * remaining (reader s) + 4 \<le> n" by auto
      from L [OF this, of it] Some \<open>f = Some g\<close> show ?thesis
        by (auto split: option.splits)
    next
      case None
      let ?s1 = "renderAttached X s"
      from b None \<open>f = Some g\<close> have "5 * remaining (reader s) + 6 \<le> Suc n" by auto
      with remaining_renderAttached [OF C, of s]
      have n: "5 * remaining (reader ?s1) + 5 \<le> n" by simp
      obtain r nx where m: "matchItem X (reader ?s1) [] = (r, nx)"
        by (cases "matchItem X (reader ?s1) []")
      have "renderListItemLoop n X d nx (?s1\<lparr>reader := r\<rparr>) \<noteq> None"
      proof (cases nx)
        case None
        with n show ?thesis by (intro IL) simp
      next
        case (Some g')
        with matchItem_no_attachments [of X "reader ?s1" r g'] m
        have "listItem g' \<noteq> None" by auto
        moreover from matchItem_remaining [OF m] n
        have "5 * remaining r + 5 \<le> n" by simp
        ultimately show ?thesis using Some by (intro IL) simp
      qed
      with m None \<open>f = Some g\<close> show ?thesis by (simp add: Let_def)
    qed
  qed
  from c1 c2 c3 c4 show ?case by blast
qed

lemma countRole_writeFrag:
  "countRole k (writeFrag k' t w) = (if k' = k then Suc (countRole k w) else countRole k w)"
  by (simp add: countRole_def writeFrag_def)

lemma depth_writeFrag:
  "depth a b (writeFrag k t w) =
     depth a b w + (if k = a then 1 else 0) - (if k = b then 1 else 0)"
  by (simp add: depth_def countRole_writeFrag)

lemma countRole_append_Other:
  "list_all (\<lambda>f. fst f = Other) frs \<Longrightarrow> k \<noteq> Other \<Longrightarrow> countRole k (w @ frs) = countRole k w"
  by (induction frs) (auto simp: countRole_def)

lemma contract_countRole:
  assumes "delimitedBlocksContract X" and "k \<noteq> Other"
  shows "countRole k (writer (dbRender X s)) = countRole k (writer s)"
proof -
  from assms(1) obtain frs where "writer (dbRender X s) = writer s @ frs"
    and "list_all (\<lambda>f. fst f = Other) frs"
    unfolding delimitedBlocksContract_def by blast
  with assms(2) show ?thesis by (simp add: countRole_append_Other)
qed

lemma depth_renderAttached:
  assumes "delimitedBlocksContract X" and "a \<noteq> Other" and "b \<noteq> Other"
  shows "depth a b (writer (renderAttached X s)) = depth a b (writer s)"
  using contract_countRole [OF assms(1,2), of "s\<lparr>ids := []\<rparr>"]
    contract_countRole [OF assms(1,3), of "s\<lparr>ids := []\<rparr>"]
  by (simp add: renderAttached_def Let_def depth_def)

lemma depth_closeItem:
  "depth a b (writer (closeItem d s)) =
     depth a b (writer s) + (if a = ItemClose then 1 else 0) - (if b = ItemClose then 1 else 0)"
  by (simp add: closeItem_def depth_writeFrag)

lemma depth_renderItemText:
  assumes "renderItemText X it s = (nx, s1)"
  shows "depth ListOpen ListClose (writer s1) = depth ListOpen ListClose (writer s)
    \<and> depth ItemOpen ItemClose (writer s1) = depth ItemOpen ItemClose (writer s) + 1"
  using assms
  by (auto simp: renderItemText_def Let_def depth_writeFrag split: prod.splits if_splits)

lemma depths:
  assumes C: "delimitedBlocksContract (X :: 'x ext)"
  shows
  "(\<forall>it s nx s1. renderList n X it s = Some (nx, s1) \<longrightarrow>
      depth ListOpen ListClose (writer s1) = depth ListOpen ListClose (writer s)
      \<and> depth ItemOpen ItemClose (writer s1) = depth ItemOpen ItemClose (writer s))
 \<and> (\<forall>it s nx s1. renderListLoop n X it s = Some (nx, s1) \<longrightarrow>
      depth ListOpen ListClose (writer s1) = depth ListOpen ListClose (writer s) - 1
      \<and> depth ItemOpen ItemClose (writer s1) = depth ItemOpen ItemClose (writer s))
 \<and> (\<forall>it s nx s1. renderListItem n X it s = Some (nx, s1) \<longrightarrow>
      depth ListOpen ListClose (writer s1) = depth ListOpen ListClose (writer s)
      \<and> depth ItemOpen ItemClose (writer s1) = depth ItemOpen ItemClose (writer s))
 \<and> (\<forall>d f s nx s1. renderListItemLoop n X d f s = Some (nx, s1) \<longrightarrow>
      depth ListOpen ListClose (writer s1) = depth ListOpen ListClose (writer s)
      \<and> depth ItemOpen ItemClose (writer s1) = depth ItemOpen ItemClose (writer s) - 1)"
proof (induction n)
  case 0
  show ?case by simp
next
  case (Suc n)
  note L = Suc.IH [THEN conjunct1, rule_format]
  note LL = Suc.IH [THEN conjunct2, THEN conjunct1, rule_format]
  note I = Suc.IH [THEN conjunct2, THEN conjunct2, THEN conjunct1, rule_format]
  note IL = Suc.IH [THEN conjunct2, THEN conjunct2, THEN conjunct2, rule_format]
  have c1: "depth ListOpen ListClose (writer s1) = depth ListOpen ListClose (writer s)
      \<and> depth ItemOpen ItemClose (writer s1) = depth ItemOpen ItemClose (writer s)"
    if "renderList (Suc n) X it s = Some (nx, s1)" for it s nx s1
    using that by (auto simp: depth_writeFrag split: prod.splits dest!: LL)
  have c2: "depth ListOpen ListClose (writer s1) = depth ListOpen ListClose (writer s) - 1
      \<and> depth ItemOpen ItemClose (writer s1) = depth ItemOpen ItemClose (writer s)"
    if "renderListLoop (Suc n) X it s = Some (nx, s1)" for it s nx s1
    using that
    by (auto simp: depth_writeFrag split: prod.splits option.splits if_splits dest!: LL I)
  have c3: "depth ListOpen ListClose (writer s1) = depth ListOpen ListClose (writer s)
      \<and> depth ItemOpen ItemClose (writer s1) = depth ItemOpen ItemClose (writer s)"
    if "renderListItem (Suc n) X it s = Some (nx, s1)" for it s nx s1
    using that
    by (auto split: prod.splits dest!: IL depth_renderItemText)
  have c4: "depth ListOpen ListClose (writer s1) = depth ListOpen ListClose (writer s)
      \<and> depth ItemOpen ItemClose (writer s1) = depth ItemOpen ItemClose (writer s) - 1"
    if "renderListItemLoop (Suc n) X d f s = Some (nx, s1)" for d f s nx s1
  proof (cases f)
    case None
    with that show ?thesis by (auto simp: depth_closeItem)
  next
    case (Some g)
    with that show ?thesis
      by (auto simp: depth_closeItem depth_renderAttached [OF C] Let_def
          split: prod.splits option.splits if_splits dest!: IL L)
  qed
  from c1 c2 c3 c4 show ?case by blast
qed

section \<open>Evaluating the engine on concrete lines\<close>

text \<open>
  The equations of the engine in a form that the simplifier can run on concrete lines:
  pairs are taken apart with \<open>fst\<close> and \<open>snd\<close>, and the depth of calls is a numeral.
\<close>

lemma renderList_eval:
  "renderList (numeral k) X startItem s =
     (let p = injectHtmlAttributes X (env s) (listOpenTag (itemDef startItem))
      in renderListLoop (pred_numeral k) X startItem
           (s\<lparr>ids := ids s @ [itemId startItem],
              writer := writeFrag ListOpen (fst p) (writer s), env := snd p\<rparr>))"
  by (simp add: numeral_eq_Suc Let_def split: prod.splits)

lemma renderListLoop_eval:
  "renderListLoop (numeral k) X startItem s =
     (case renderListItem (pred_numeral k) X startItem s of
        None \<Rightarrow> None
      | Some p \<Rightarrow>
          (case fst p of
             None \<Rightarrow>
               Some (None,
                 (snd p)\<lparr>writer := writeFrag ListClose (listCloseTag (itemDef startItem))
                                      (writer (snd p)),
                          ids := butlast (ids (snd p))\<rparr>)
           | Some nextItem \<Rightarrow>
               if itemId nextItem \<noteq> itemId startItem
               then Some (Some nextItem,
                      (snd p)\<lparr>writer := writeFrag ListClose (listCloseTag (itemDef startItem))
                                           (writer (snd p)),
                               ids := butlast (ids (snd p))\<rparr>)
               else renderListLoop (pred_numeral k) X nextItem (snd p)))"
  by (simp add: numeral_eq_Suc split: prod.splits option.splits)

lemma renderListItem_eval:
  "renderListItem (numeral k) X startItem s =
     (let p = renderItemText X startItem s
      in renderListItemLoop (pred_numeral k) X (itemDef startItem) (fst p) (snd p))"
  by (simp add: numeral_eq_Suc Let_def split: prod.splits)

lemma renderListItemLoop_eval:
  "renderListItemLoop (numeral k) X d None s = Some (None, closeItem d s)"
  "renderListItemLoop (numeral k) X d (Some f) s =
     (case listItem f of
        Some it \<Rightarrow>
          if itemId it \<in> set (ids s) then Some (Some it, closeItem d s)
          else (case renderList (pred_numeral k) X it s of
                  None \<Rightarrow> None
                | Some p \<Rightarrow> Some (fst p, closeItem d (snd p)))
      | None \<Rightarrow>
          (let s1 = renderAttached X s
           in if eof (reader s1) then Some (None, closeItem d s1)
              else (let p = matchItem X (reader s1) []
                    in renderListItemLoop (pred_numeral k) X d (snd p) (s1\<lparr>reader := fst p\<rparr>))))"
  by (simp_all add: numeral_eq_Suc Let_def split: prod.splits option.splits)

lemma renderItemText_eval:
  "renderItemText X startItem s =
     (let d = itemDef startItem;
          m = itemMatch startItem;
          s1 = (if length m = 4 then
                  (let p = replaceInline X (env s) (group m 1)
                   in s\<lparr>writer := writeFrag TermClose (termTag (termCloseTag d))
                                     (writeFrag TermText (fst p)
                                       (writeFrag TermOpen (termTag (termOpenTag d)) (writer s))),
                         env := snd p\<rparr>)
                else s);
          s2 = s1\<lparr>writer := writeFrag ItemOpen (itemOpenTag d) (writer s1)\<rparr>;
          ls = writeFrag ItemText [NL] (writeFrag ItemText (group m (length m - 1)) []);
          q = readToNext X (nextLine (reader s2)) ls;
          p = replaceInline X (env s2) (toString (fst (snd q)))
      in (snd (snd q),
          s2\<lparr>reader := fst q, writer := writeFrag ItemText (fst p) (writer s2), env := snd p\<rparr>))"
  by (simp add: renderItemText_def Let_def split: prod.splits)

lemma render_eval:
  "render n X s =
     (if eof (reader s) then Some (Inl PrematureEof)
      else (let p = matchItem X (reader s) []
            in case snd p of
                 None \<Rightarrow> Some (Inr (False, s\<lparr>reader := fst p\<rparr>))
               | Some f \<Rightarrow>
                   (case f of
                      Block \<Rightarrow> Some (Inl TypeError)
                    | Item startItem \<Rightarrow>
                        (case renderList n X startItem (s\<lparr>reader := fst p, ids := []\<rparr>) of
                           None \<Rightarrow> None
                         | Some q \<Rightarrow> Some (Inr (True, snd q))))))"
  by (simp add: render_def Let_def split: prod.splits option.splits found.splits)

lemma renderString_eval:
  "renderString n X ls =
     (case render n X (start ls) of
        None \<Rightarrow> None
      | Some res \<Rightarrow>
          (case res of
             Inl e \<Rightarrow> Some (Inl e)
           | Inr p \<Rightarrow> Some (Inr (fst p, pos (reader (snd p)), toString (writer (snd p))))))"
  by (simp add: renderString_def split: prod.splits option.splits sum.splits)

lemma exampleExt_simps:
  "replaceInline exampleExt e t = (t, e)"
  "injectHtmlAttributes exampleExt e t = (t, e)"
  "dbRender exampleExt s = s\<lparr>reader := nextLine (reader s),
      writer := writeFrag Other (cursorLine (reader s)) (writer s), ids := []\<rparr>"
  "openMatch exampleExt name line = (name = ''indented'' \<and> take 2 line = str ''  '')"
  by (simp_all add: exampleExt_def)

lemmas regex_defs = str_def NL_def BACKSLASH_def COLON_def MINUS_def PLUS_def STAR_def DOT_def
  isSpace_def isLineTerminator_def isDigit_def dotsToEnd_def dropBackslash_def itemText_def
  unorderedMarker_def execUnordered_def execOrdered_def colonsAndDefinition_def termAt_def
  termFrom_def execDefinition_def defs_def

lemmas engine_defs = renderList_eval renderListLoop_eval renderListItem_eval
  renderListItemLoop_eval renderItemText_eval render_eval renderString_eval exampleExt_simps
  start_def matchItem_def cursorLine_def cursor_def eof_def
  cursorSet_def nextLine_def writeFrag_def toString_def renderAttached_def
  closeItem_def group_def termTag_def Let_def textAttachments_def blankLineAttachments_def
  readToNext_eof readToNext_blank readToNext_element readToNext_text
  skipBlankLines_blank skipBlankLines_stop

text \<open>Branches are simplified only once the value that selects them is known.\<close>

lemmas eval_cong = if_weak_cong option.case_cong_weak prod.case_cong_weak list.case_cong_weak
  let_weak_cong found.case_cong_weak sum.case_cong_weak RegExp.case_cong_weak

lemma exampleExt_contract: "delimitedBlocksContract exampleExt"
  unfolding delimitedBlocksContract_def
proof (intro allI conjI)
  fix s :: "unit state"
  show "remaining (reader (dbRender exampleExt s)) \<le> remaining (reader s)"
    by (simp add: exampleExt_simps remaining_nextLine)
  show "\<exists>frs. writer (dbRender exampleExt s) = writer s @ frs \<and> list_all (\<lambda>f. fst f = Other) frs"
    by (simp add: exampleExt_simps writeFrag_def)
qed

section \<open>Claims\<close>

lemma matchDefs_None:
  "(\<forall>d \<in> set ds. exec (matchRe d) line = None) \<Longrightarrow> matchDefs ds r line = None"
  by (induction ds) auto

lemma cursorLine_not_eof: "\<not> eof r \<Longrightarrow> cursorLine r = lines r ! pos r"
  by (simp add: cursorLine_def cursor_def)

text \<open>
  C5. When the reader is not at the end of the input and none of the three list
  expressions matches the current line, \<open>render\<close> returns false and leaves everything as
  it was: the reader (position and lines), the writer and the stack of IDs.
\<close>

theorem render_no_match_leaves_reader:
  assumes "\<not> eof (reader s)"
    and "\<forall>d \<in> set defs. exec (matchRe d) (lines (reader s) ! pos (reader s)) = None"
  shows "render n X s = Some (Inr (False, s))"
proof -
  from assms have "matchDefs defs (reader s) (cursorLine (reader s)) = None"
    by (simp add: matchDefs_None cursorLine_not_eof)
  then have "matchItem X (reader s) [] = (reader s, None)"
    by (simp add: matchItem_def)
  with assms(1) show ?thesis
    by (simp add: render_def)
qed

theorem render_no_match_leaves_reader_witness:
  "\<not> eof (reader (start [str ''plain text'', str ''- item''])) \<and>
   exec UnorderedRe (str ''plain text'') = None \<and>
   exec OrderedRe (str ''plain text'') = None \<and>
   exec DefinitionRe (str ''plain text'') = None \<and>
   render 20 exampleExt (start [str ''plain text'', str ''- item''])
     = Some (Inr (False, start [str ''plain text'', str ''- item'']))"
proof -
  have h1: "\<not> eof (reader (start [str ''plain text'', str ''- item'']))"
    by (simp add: start_def eof_def)
  have h2: "exec UnorderedRe (str ''plain text'') = None \<and>
      exec OrderedRe (str ''plain text'') = None \<and>
      exec DefinitionRe (str ''plain text'') = None"
    by (simp add: regex_defs)
  then have h3: "\<forall>d \<in> set defs. exec (matchRe d)
      (lines (reader (start [str ''plain text'', str ''- item'']))
         ! pos (reader (start [str ''plain text'', str ''- item'']))) = None"
    by (simp add: start_def defs_def)
  from render_no_match_leaves_reader [OF h1 h3, of 20 exampleExt] h1 h2 show ?thesis
    by blast
qed

lemma matchDefs_escaped:
  assumes "take 1 line = [BACKSLASH]" and "\<exists>d \<in> set ds. exec (matchRe d) line \<noteq> None"
  shows "matchDefs ds r line = Some (cursorSet (drop 1 (cursorLine r)) r, None)"
  using assms(2)
proof (induction ds)
  case Nil
  then show ?case by simp
next
  case (Cons d ds)
  show ?case
  proof (cases "exec (matchRe d) line")
    case None
    with Cons show ?thesis by simp
  next
    case (Some m)
    from exec_shape(1) [OF Some] assms(1) have "take 1 (hd m) = [BACKSLASH]" by simp
    with Some show ?thesis by simp
  qed
qed

lemma dropBackslash_Cons: "dropBackslash (BACKSLASH # rest) = rest"
  by (simp add: dropBackslash_def)

lemma dropBackslash_unescaped: "take 1 rest \<noteq> [BACKSLASH] \<Longrightarrow> dropBackslash rest = rest"
  by (cases rest) (auto simp: dropBackslash_def)

lemma termAt_escaped:
  "termAt rest st g = Some m \<Longrightarrow> termAt (BACKSLASH # rest) (Suc st) g \<noteq> None"
  by (auto simp: termAt_def Let_def split: if_splits option.splits)

lemma firstSome_not_None: "x \<in> set xs \<Longrightarrow> f x \<noteq> None \<Longrightarrow> firstSome f xs \<noteq> None"
  by (induction xs) (auto split: option.splits)

lemma termFrom_escaped:
  assumes "termFrom rest st = Some m"
  shows "termFrom (BACKSLASH # rest) (Suc st) \<noteq> None"
proof -
  let ?gs = "rev [0..<Suc (length (takeWhile (\<lambda>c. \<not> isLineTerminator c) (drop st rest)))]"
  from assms have "firstSome (termAt rest st) ?gs = Some m"
    unfolding termFrom_def Let_def .
  then obtain g where g: "g \<in> set ?gs" and t: "termAt rest st g = Some m"
    by (blast dest: firstSome_SomeD)
  from firstSome_not_None [where f = "termAt (BACKSLASH # rest) (Suc st)", OF g termAt_escaped [OF t]]
  have "firstSome (termAt (BACKSLASH # rest) (Suc st)) ?gs \<noteq> None" .
  moreover have "termFrom (BACKSLASH # rest) (Suc st)
      = firstSome (termAt (BACKSLASH # rest) (Suc st)) ?gs"
    unfolding termFrom_def Let_def by (simp del: upt_Suc)
  ultimately show ?thesis by simp
qed

lemma execDefinition_escaped:
  assumes "execDefinition rest = Some m" and "take 1 rest \<noteq> [BACKSLASH]"
  shows "execDefinition (BACKSLASH # rest) \<noteq> None"
proof -
  let ?ws = "rev [0..<Suc (length (takeWhile isSpace rest))]"
  from assms(2) have "execDefinition rest = firstSome (termFrom rest) (map ((+) 0) ?ws)"
    unfolding execDefinition_def Let_def by (simp del: upt_Suc)
  with assms(1) obtain st where st: "st \<in> set ?ws" and t: "termFrom rest st = Some m"
    by (auto simp del: upt_Suc dest!: firstSome_SomeD)
  have eq: "execDefinition (BACKSLASH # rest)
      = firstSome (termFrom (BACKSLASH # rest)) (map ((+) (Suc 0)) ?ws @ [0])"
    unfolding execDefinition_def Let_def by (simp del: upt_Suc)
  from st have "Suc st \<in> set (map ((+) (Suc 0)) ?ws @ [0])"
    by (auto simp del: upt_Suc)
  from firstSome_not_None [where f = "termFrom (BACKSLASH # rest)", OF this termFrom_escaped [OF t]]
  show ?thesis
    unfolding eq .
qed

lemma exec_escaped:
  assumes "exec re rest \<noteq> None" and "take 1 rest \<noteq> [BACKSLASH]"
  shows "exec re (BACKSLASH # rest) \<noteq> None"
proof (cases re)
  case UnorderedRe
  with assms show ?thesis
    by (auto simp: execUnordered_def Let_def dropBackslash_Cons dropBackslash_unescaped
        split: if_splits option.splits)
next
  case OrderedRe
  with assms show ?thesis
    by (auto simp: execOrdered_def Let_def dropBackslash_Cons dropBackslash_unescaped
        split: if_splits option.splits)
next
  case DefinitionRe
  with assms execDefinition_escaped [of rest] show ?thesis by auto
qed

text \<open>
  Where the escape works. A line that starts with a backslash and matches a list
  expression (in particular a backslash in front of any line that matches one and is not
  itself escaped) makes \<open>matchItem\<close> rewrite the line of the reader without the backslash
  and return \<open>null\<close>, whatever attachments are allowed. At the entry of \<open>render\<close> that
  gives false with nothing written, and on the text path of \<open>readToNext\<close> (line 167) the
  rewritten line is appended to the text of the item and the reader moves on.
\<close>

lemma escaped_marker_is_text:
  assumes ne: "\<not> eof (reader s)"
    and line: "lines (reader s) ! pos (reader s) = BACKSLASH # rest"
    and m: "\<exists>d \<in> set defs. exec (matchRe d) (BACKSLASH # rest) \<noteq> None
              \<or> (take 1 rest \<noteq> [BACKSLASH] \<and> exec (matchRe d) rest \<noteq> None)"
  shows "matchItem X (reader s) atts
           = ((reader s)\<lparr>lines := (lines (reader s))[pos (reader s) := rest]\<rparr>, None)
       \<and> render n X s
           = Some (Inr (False,
               s\<lparr>reader := (reader s)\<lparr>lines := (lines (reader s))[pos (reader s) := rest]\<rparr>\<rparr>))
       \<and> readToNext X (reader s) w
           = readToNext X
               (nextLine ((reader s)\<lparr>lines := (lines (reader s))[pos (reader s) := rest]\<rparr>))
               (writeFrag ItemText [NL] (writeFrag ItemText rest w))"
proof -
  let ?r = "(reader s)\<lparr>lines := (lines (reader s))[pos (reader s) := rest]\<rparr>"
  from ne line have cl: "cursorLine (reader s) = BACKSLASH # rest"
    by (simp add: cursorLine_not_eof)
  from m have "\<exists>d \<in> set defs. exec (matchRe d) (BACKSLASH # rest) \<noteq> None"
    using exec_escaped by blast
  then have "matchDefs defs (reader s) (BACKSLASH # rest)
      = Some (cursorSet (drop 1 (cursorLine (reader s))) (reader s), None)"
    by (intro matchDefs_escaped) simp_all
  with ne cl have mi: "matchItem X (reader s) as = (?r, None)" for as
    by (simp add: matchItem_def cursorSet_def)
  from ne have "\<not> eof ?r" by (simp add: eof_def)
  then have cr: "cursorLine ?r = rest"
    using ne by (simp add: cursorLine_not_eof eof_def)
  from ne cl have nb: "cursor (reader s) \<noteq> Some []"
    by (simp add: cursor_def line)
  have "readToNext X (reader s) w
      = readToNext X (nextLine ?r) (writeFrag ItemText [NL] (writeFrag ItemText rest w))"
    using ne nb by (simp add: readToNext_text mi cr)
  with mi ne show ?thesis
    by (simp add: render_def)
qed

lemma escaped_marker_is_text_example:
  "\<not> eof (reader (start [BACKSLASH # str ''- not a list item'']))
   \<and> lines (reader (start [BACKSLASH # str ''- not a list item'']))
        ! pos (reader (start [BACKSLASH # str ''- not a list item'']))
       = BACKSLASH # str ''- not a list item''
   \<and> exec UnorderedRe (str ''- not a list item'') \<noteq> None
   \<and> render 20 exampleExt (start [BACKSLASH # str ''- not a list item''])
       = Some (Inr (False, start [str ''- not a list item'']))
   \<and> renderString 20 exampleExt [BACKSLASH # str ''- not a list item''] = Some (Inr (False, 0, []))"
proof -
  let ?s = "start [BACKSLASH # str ''- not a list item'']"
  have h1: "\<not> eof (reader ?s)"
    by (simp add: start_def eof_def)
  have h2: "lines (reader ?s) ! pos (reader ?s) = BACKSLASH # str ''- not a list item''"
    by (simp add: start_def)
  have e: "exec UnorderedRe (str ''- not a list item'') \<noteq> None"
    by (simp add: regex_defs)
  have h3: "\<exists>d \<in> set defs. exec (matchRe d) (BACKSLASH # str ''- not a list item'') \<noteq> None
      \<or> (take 1 (str ''- not a list item'') \<noteq> [BACKSLASH]
          \<and> exec (matchRe d) (str ''- not a list item'') \<noteq> None)"
    by (simp add: regex_defs)
  have r: "render 20 exampleExt ?s = Some (Inr (False, start [str ''- not a list item'']))"
    using escaped_marker_is_text [OF h1 h2 h3, of exampleExt "[]" 20 "[]"]
    by (simp add: start_def)
  then have "renderString 20 exampleExt [BACKSLASH # str ''- not a list item'']
      = Some (Inr (False, 0, []))"
    by (simp add: renderString_def start_def toString_def)
  with h1 h2 e r show ?thesis by blast
qed



text \<open>
  C9. \<open>render\<close> throws exactly when the reader is at the end of the input, and then it
  throws "premature eof" whatever else holds. From any other reader it never throws,
  whatever the lines are, and (when \<open>delimitedBlocks.render\<close> keeps to its contract) it
  returns.
\<close>

theorem render_throws_only_at_eof:
  "(eof (reader s) \<longrightarrow> render n X s = Some (Inl PrematureEof))
   \<and> (\<not> eof (reader s) \<longrightarrow>
        (\<forall>e. render n X s \<noteq> Some (Inl e))
        \<and> (delimitedBlocksContract X \<and> fuelFor (reader s) \<le> n \<longrightarrow>
            (\<exists>b s'. render n X s = Some (Inr (b, s')))))"
proof (intro conjI impI allI)
  assume "eof (reader s)"
  then show "render n X s = Some (Inl PrematureEof)"
    by (simp add: render_def)
next
  fix e
  assume ne: "\<not> eof (reader s)"
  obtain r nx where m: "matchItem X (reader s) [] = (r, nx)"
    by (cases "matchItem X (reader s) []")
  show "render n X s \<noteq> Some (Inl e)"
  proof (cases nx)
    case None
    with ne m show ?thesis by (simp add: render_def)
  next
    case (Some f)
    with matchItem_no_attachments [of X "reader s" r f] m obtain it where "f = Item it"
      by auto
    with ne m Some show ?thesis
      by (simp add: render_def split: option.splits)
  qed
next
  assume ne: "\<not> eof (reader s)" and c: "delimitedBlocksContract X \<and> fuelFor (reader s) \<le> n"
  obtain r nx where m: "matchItem X (reader s) [] = (r, nx)"
    by (cases "matchItem X (reader s) []")
  show "\<exists>b s'. render n X s = Some (Inr (b, s'))"
  proof (cases nx)
    case None
    with ne m have "render n X s = Some (Inr (False, s\<lparr>reader := r\<rparr>))"
      by (simp add: render_def)
    then show ?thesis by blast
  next
    case (Some f)
    with matchItem_no_attachments [of X "reader s" r f] m obtain it where f: "f = Item it"
      by auto
    from c matchItem_remaining [OF m]
    have "5 * remaining (reader (s\<lparr>reader := r, ids := []\<rparr>)) + 4 \<le> n"
      by (simp add: fuelFor_def)
    with enough_fuel [of X n] c
    have "renderList n X it (s\<lparr>reader := r, ids := []\<rparr>) \<noteq> None"
      by blast
    with ne m Some f show ?thesis
      by (auto simp: render_def)
  qed
qed

theorem render_throws_only_at_eof_witness:
  "eof (reader (start []))
   \<and> render 20 exampleExt (start []) = Some (Inl PrematureEof)
   \<and> \<not> eof (reader (start [str ''- a'', str ''no list'']))
   \<and> delimitedBlocksContract exampleExt
   \<and> fuelFor (reader (start [str ''- a'', str ''no list''])) \<le> 20
   \<and> (\<exists>b s'. render 20 exampleExt (start [str ''- a'', str ''no list'']) = Some (Inr (b, s')))"
proof -
  have h1: "eof (reader (start []))"
    by (simp add: start_def eof_def)
  have h2: "\<not> eof (reader (start [str ''- a'', str ''no list'']))"
    by (simp add: start_def eof_def)
  have h3: "fuelFor (reader (start [str ''- a'', str ''no list''])) \<le> 20"
    by (simp add: start_def fuelFor_def remaining_def)
  from render_throws_only_at_eof [of "start []" 20 exampleExt] h1
  have "render 20 exampleExt (start []) = Some (Inl PrematureEof)"
    by blast
  moreover
  from render_throws_only_at_eof [of "start [str ''- a'', str ''no list'']" 20 exampleExt]
    h2 h3 exampleExt_contract
  have "\<exists>b s'. render 20 exampleExt (start [str ''- a'', str ''no list'']) = Some (Inr (b, s'))"
    by blast
  ultimately show ?thesis using h1 h2 h3 exampleExt_contract by blast
qed

lemma countRole_append: "countRole k (w @ frs) = countRole k w + countRole k frs"
  by (simp add: countRole_def)

lemma depth_count:
  "depth a b w' = depth a b w \<longleftrightarrow>
     int (countRole a w') - int (countRole a w) = int (countRole b w') - int (countRole b w)"
  by (auto simp: depth_def)

text \<open>
  C1. The stack of list IDs is balanced. Every call of \<open>renderList\<close> that returns leaves
  \<open>ids\<close> as it found it (the push at its entry is undone by the one pop at its exit) and
  has written as many list close tags as list open tags. A \<open>render\<close> returns for every
  input (given enough call depth); when it has rendered a list, \<open>ids\<close> is empty and the
  number of list open tags it wrote equals the number of list close tags it wrote, and
  when it has not, it wrote nothing.
\<close>

theorem list_stack_balanced:
  assumes C: "delimitedBlocksContract X"
  shows "(\<forall>m it t nx t'. renderList m X it t = Some (nx, t') \<longrightarrow>
            ids t' = ids t
            \<and> int (countRole ListOpen (writer t')) - int (countRole ListOpen (writer t))
                = int (countRole ListClose (writer t')) - int (countRole ListClose (writer t)))
       \<and> (fuelFor (reader s) \<le> n \<longrightarrow>
            (\<exists>res. render n X s = Some res
               \<and> (\<forall>s'. res = Inr (True, s') \<longrightarrow>
                     ids s' = []
                     \<and> int (countRole ListOpen (writer s')) - int (countRole ListOpen (writer s))
                         = int (countRole ListClose (writer s'))
                           - int (countRole ListClose (writer s)))
               \<and> (\<forall>s'. res = Inr (False, s') \<longrightarrow> writer s' = writer s)))"
proof (intro conjI allI impI)
  fix m it t nx t'
  assume r: "renderList m X it t = Some (nx, t')"
  from ids_invariant [of m, THEN conjunct1, rule_format, OF r]
  show "ids t' = ids t" by simp
  from depths [OF C, of m, THEN conjunct1, rule_format, OF r]
  show "int (countRole ListOpen (writer t')) - int (countRole ListOpen (writer t))
      = int (countRole ListClose (writer t')) - int (countRole ListClose (writer t))"
    by (simp add: depth_count)
next
  assume f: "fuelFor (reader s) \<le> n"
  show "\<exists>res. render n X s = Some res
      \<and> (\<forall>s'. res = Inr (True, s') \<longrightarrow>
            ids s' = []
            \<and> int (countRole ListOpen (writer s')) - int (countRole ListOpen (writer s))
                = int (countRole ListClose (writer s')) - int (countRole ListClose (writer s)))
      \<and> (\<forall>s'. res = Inr (False, s') \<longrightarrow> writer s' = writer s)"
  proof (cases "eof (reader s)")
    case True
    then show ?thesis by (simp add: render_def)
  next
    case False
    obtain r nx where m: "matchItem X (reader s) [] = (r, nx)"
      by (cases "matchItem X (reader s) []")
    show ?thesis
    proof (cases nx)
      case None
      with False m show ?thesis by (simp add: render_def)
    next
      case (Some g)
      with matchItem_no_attachments [of X "reader s" r g] m obtain it where g: "g = Item it"
        by auto
      let ?s0 = "s\<lparr>reader := r, ids := []\<rparr>"
      from f matchItem_remaining [OF m] have "5 * remaining (reader ?s0) + 4 \<le> n"
        by (simp add: fuelFor_def)
      with enough_fuel [OF C, of n] have "renderList n X it ?s0 \<noteq> None"
        by blast
      then obtain nx' s1 where r: "renderList n X it ?s0 = Some (nx', s1)"
        by auto
      from ids_invariant [of n, THEN conjunct1, rule_format, OF r]
      have i: "ids s1 = []" by simp
      from depths [OF C, of n, THEN conjunct1, rule_format, OF r]
      have d: "int (countRole ListOpen (writer s1)) - int (countRole ListOpen (writer s))
          = int (countRole ListClose (writer s1)) - int (countRole ListClose (writer s))"
        by (simp add: depth_count)
      from False m Some g r have "render n X s = Some (Inr (True, s1))"
        by (simp add: render_def)
      with i d show ?thesis by simp
    qed
  qed
qed

theorem list_stack_balanced_witness:
  "delimitedBlocksContract exampleExt
   \<and> fuelFor (reader (start [str ''- one'', str ''  * nested'', str ''- two''])) \<le> 20
   \<and> (\<exists>s'. render 20 exampleExt (start [str ''- one'', str ''  * nested'', str ''- two''])
              = Some (Inr (True, s'))
          \<and> ids s' = []
          \<and> countRole ListOpen (writer s') = 2 \<and> countRole ListClose (writer s') = 2)
   \<and> (\<exists>t'. renderList 20 exampleExt
               \<lparr>itemMatch = [str ''  * nested'', str ''*'', str ''nested''],
                 itemDef = defs ! 0, itemId = str ''*''\<rparr>
               \<lparr>reader = \<lparr>lines = [str ''- one'', str ''  * nested'', str ''- two''], pos = 1\<rparr>,
                 writer = [], ids = [str ''-''], env = ()\<rparr>
              = Some (Some \<lparr>itemMatch = [str ''- two'', str ''-'', str ''two''],
                             itemDef = defs ! 0, itemId = str ''-''\<rparr>, t')
          \<and> ids t' = [str ''-''])"
proof -
  let ?L = "[str ''- one'', str ''  * nested'', str ''- two'']"
  let ?it = "\<lparr>itemMatch = [str ''  * nested'', str ''*'', str ''nested''],
                 itemDef = defs ! 0, itemId = str ''*''\<rparr>"
  let ?t = "\<lparr>reader = \<lparr>lines = ?L, pos = 1\<rparr>, writer = [], ids = [str ''-''], env = ()\<rparr>"
  have h: "fuelFor (reader (start ?L)) \<le> 20"
    by (simp add: start_def fuelFor_def remaining_def)
  note T = list_stack_balanced [OF exampleExt_contract, of "start ?L" 20]
  obtain s' where r: "render 20 exampleExt (start ?L) = Some (Inr (True, s'))"
    and c: "countRole ListOpen (writer s') = 2"
    by (simp add: regex_defs engine_defs countRole_def cong: eval_cong)
  from T h r have "ids s' = []"
    and "int (countRole ListOpen (writer s')) - int (countRole ListOpen (writer (start ?L)))
         = int (countRole ListClose (writer s')) - int (countRole ListClose (writer (start ?L)))"
    by auto
  with c have s: "ids s' = [] \<and> countRole ListOpen (writer s') = 2
      \<and> countRole ListClose (writer s') = 2"
    by (simp add: start_def countRole_def)
  obtain t' where l: "renderList 20 exampleExt ?it ?t
      = Some (Some \<lparr>itemMatch = [str ''- two'', str ''-'', str ''two''],
                     itemDef = defs ! 0, itemId = str ''-''\<rparr>, t')"
    by (simp add: regex_defs engine_defs cong: eval_cong)
  from T l have "ids t' = [str ''-'']" by auto
  with h r s l exampleExt_contract show ?thesis by blast
qed

lemma contract_writer:
  assumes "delimitedBlocksContract X"
  shows "\<exists>frs. writer (dbRender X s) = writer s @ frs \<and> list_all (\<lambda>f. fst f = Other) frs"
  using assms unfolding delimitedBlocksContract_def by blast

lemma writer_renderAttached:
  assumes "delimitedBlocksContract X"
  shows "\<exists>frs. writer (renderAttached X s) = writer s @ frs
           \<and> countRole ItemOpen frs = 0 \<and> countRole ItemClose frs = 0"
proof -
  from contract_writer [OF assms, of "s\<lparr>ids := []\<rparr>"] obtain frs where
    w: "writer (dbRender X (s\<lparr>ids := []\<rparr>)) = writer s @ frs"
    and o: "list_all (\<lambda>f. fst f = Other) frs" by auto
  from o have "countRole ItemOpen frs = 0 \<and> countRole ItemClose frs = 0"
    using countRole_append_Other [OF o, of ItemOpen "[]"]
      countRole_append_Other [OF o, of ItemClose "[]"]
    by (simp add: countRole_def)
  with w show ?thesis by (simp add: renderAttached_def Let_def)
qed

lemma writer_renderItemText:
  assumes "renderItemText X it s = (nx, s1)"
  shows "\<exists>pre txt. writer s1
            = writer s @ pre @ [(ItemOpen, itemOpenTag (itemDef it)), (ItemText, txt)]
          \<and> countRole ItemOpen pre = 0 \<and> countRole ItemClose pre = 0"
proof (cases "length (itemMatch it) = 4")
  case True
  obtain t e where p: "replaceInline X (env s) (group (itemMatch it) 1) = (t, e)"
    by (cases "replaceInline X (env s) (group (itemMatch it) 1)")
  let ?pre = "[(TermOpen, termTag (termOpenTag (itemDef it))), (TermText, t),
               (TermClose, termTag (termCloseTag (itemDef it)))]"
  from assms True p have "\<exists>txt. writer s1
      = writer s @ ?pre @ [(ItemOpen, itemOpenTag (itemDef it)), (ItemText, txt)]"
    by (auto simp: renderItemText_def Let_def writeFrag_def split: prod.splits)
  moreover have "countRole ItemOpen ?pre = 0 \<and> countRole ItemClose ?pre = 0"
    by (simp add: countRole_def)
  ultimately show ?thesis by blast
next
  case False
  with assms have "\<exists>txt. writer s1
      = writer s @ [] @ [(ItemOpen, itemOpenTag (itemDef it)), (ItemText, txt)]"
    by (auto simp: renderItemText_def Let_def writeFrag_def split: prod.splits)
  moreover have "countRole ItemOpen [] = 0 \<and> countRole ItemClose [] = 0"
    by (simp add: countRole_def)
  ultimately show ?thesis by blast
qed

lemma writer_closeItem: "writer (closeItem d s) = writer s @ [(ItemClose, itemCloseTag d)]"
  by (simp add: closeItem_def writeFrag_def)

lemma writer_grows:
  assumes C: "delimitedBlocksContract (X :: 'x ext)"
  shows
  "(\<forall>it s nx s1. renderList n X it s = Some (nx, s1) \<longrightarrow> (\<exists>frs. writer s1 = writer s @ frs))
 \<and> (\<forall>it s nx s1. renderListLoop n X it s = Some (nx, s1) \<longrightarrow> (\<exists>frs. writer s1 = writer s @ frs))
 \<and> (\<forall>it s nx s1. renderListItem n X it s = Some (nx, s1) \<longrightarrow> (\<exists>frs. writer s1 = writer s @ frs))
 \<and> (\<forall>d f s nx s1. renderListItemLoop n X d f s = Some (nx, s1) \<longrightarrow>
        (\<exists>frs. writer s1 = writer s @ frs))"
proof (induction n)
  case 0
  show ?case by simp
next
  case (Suc n)
  note L = Suc.IH [THEN conjunct1, rule_format]
  note LL = Suc.IH [THEN conjunct2, THEN conjunct1, rule_format]
  note I = Suc.IH [THEN conjunct2, THEN conjunct2, THEN conjunct1, rule_format]
  note IL = Suc.IH [THEN conjunct2, THEN conjunct2, THEN conjunct2, rule_format]
  have c1: "\<exists>frs. writer s1 = writer s @ frs"
    if "renderList (Suc n) X it s = Some (nx, s1)" for it s nx s1
    using that by (auto simp: writeFrag_def split: prod.splits dest!: LL)
  have c2: "\<exists>frs. writer s1 = writer s @ frs"
    if "renderListLoop (Suc n) X it s = Some (nx, s1)" for it s nx s1
    using that
    by (auto simp: writeFrag_def split: prod.splits option.splits if_splits dest!: LL I)
  have c3: "\<exists>frs. writer s1 = writer s @ frs"
    if "renderListItem (Suc n) X it s = Some (nx, s1)" for it s nx s1
  proof -
    from that obtain f s0 where t: "renderItemText X it s = (f, s0)"
      and l: "renderListItemLoop n X (itemDef it) f s0 = Some (nx, s1)"
      by (auto split: prod.splits)
    from writer_renderItemText [OF t] IL [OF l] show ?thesis by auto
  qed
  have c4: "\<exists>frs. writer s1 = writer s @ frs"
    if "renderListItemLoop (Suc n) X d f s = Some (nx, s1)" for d f s nx s1
  proof (cases f)
    case None
    with that show ?thesis by (auto simp: writer_closeItem)
  next
    case (Some g)
    from writer_renderAttached [OF C, of s] obtain fo where
      a: "writer (renderAttached X s) = writer s @ fo" by blast
    from that Some show ?thesis
      by (auto simp: writer_closeItem a Let_def
          split: prod.splits option.splits if_splits dest!: IL L)
  qed
  from c1 c2 c3 c4 show ?case by blast
qed

lemma item_loop_shape:
  assumes C: "delimitedBlocksContract (X :: 'x ext)"
  shows "renderListItemLoop n X d f s = Some (nx, s1) \<Longrightarrow>
     \<exists>mid. writer s1 = writer s @ mid @ [(ItemClose, itemCloseTag d)]
        \<and> countRole ItemOpen mid = countRole ItemClose mid"
proof (induction n arbitrary: f s)
  case 0
  then show ?case by simp
next
  case (Suc n)
  show ?case
  proof (cases f)
    case None
    with Suc.prems have "writer s1 = writer s @ [] @ [(ItemClose, itemCloseTag d)]"
      by (auto simp: writer_closeItem)
    then show ?thesis by (intro exI [of _ "[]"]) (simp add: countRole_def)
  next
    case (Some g)
    note f = this
    show ?thesis
    proof (cases "listItem g")
      case (Some it)
      show ?thesis
      proof (cases "itemId it \<in> set (ids s)")
        case True
        with Suc.prems f Some
        have "writer s1 = writer s @ [] @ [(ItemClose, itemCloseTag d)]"
          by (auto simp: writer_closeItem)
        then show ?thesis by (intro exI [of _ "[]"]) (simp add: countRole_def)
      next
        case False
        with Suc.prems f Some obtain s' where
          r: "renderList n X it s = Some (nx, s')" and s1: "s1 = closeItem d s'"
          by (auto split: option.splits)
        from writer_grows [OF C, of n, THEN conjunct1, rule_format, OF r]
        obtain frs where w: "writer s' = writer s @ frs" by blast
        from depths [OF C, of n, THEN conjunct1, rule_format, OF r]
        have "depth ItemOpen ItemClose (writer s') = depth ItemOpen ItemClose (writer s)"
          by simp
        with w have "countRole ItemOpen frs = countRole ItemClose frs"
          by (simp add: depth_def countRole_append)
        with w s1 show ?thesis
          by (intro exI [of _ frs]) (simp add: writer_closeItem)
      qed
    next
      case None
      let ?s1 = "renderAttached X s"
      from writer_renderAttached [OF C, of s] obtain fo where
        a: "writer ?s1 = writer s @ fo"
        and z: "countRole ItemOpen fo = 0" "countRole ItemClose fo = 0" by blast
      show ?thesis
      proof (cases "eof (reader ?s1)")
        case True
        with Suc.prems f None have "s1 = closeItem d ?s1"
          by (simp add: Let_def)
        with a z show ?thesis
          by (intro exI [of _ fo]) (simp add: writer_closeItem)
      next
        case False
        with Suc.prems f None
        have "renderListItemLoop n X d (snd (matchItem X (reader ?s1) []))
                (?s1\<lparr>reader := fst (matchItem X (reader ?s1) [])\<rparr>) = Some (nx, s1)"
          by (auto simp: Let_def split: prod.splits)
        from Suc.IH [OF this] obtain mid where
          m: "writer s1 = writer ?s1 @ mid @ [(ItemClose, itemCloseTag d)]"
          and b: "countRole ItemOpen mid = countRole ItemClose mid"
          by auto
        from m a z b show ?thesis
          by (intro exI [of _ "fo @ mid"]) (simp add: countRole_append)
      qed
    qed
  qed
qed

text \<open>
  C10. Every call of \<open>renderListItem\<close> that returns has written, after the optional
  term, its item open tag and the item text, then whatever nested lists and attached
  blocks wrote (with as many item close tags as item open tags), and last exactly one
  item close tag, of the same definition as the open tag. The call returns whenever the
  depth of calls allows it, and over a whole \<open>render\<close> the item open tags and the
  item close tags written are equally many.
\<close>

theorem item_tags_balanced:
  assumes C: "delimitedBlocksContract (X :: 'x ext)"
  shows "(\<forall>m it (t :: 'x state) nx t'. renderListItem m X it t = Some (nx, t') \<longrightarrow>
            (\<exists>pre txt mid.
               writer t' = writer t @ pre
                  @ [(ItemOpen, itemOpenTag (itemDef it)), (ItemText, txt)]
                  @ mid @ [(ItemClose, itemCloseTag (itemDef it))]
               \<and> countRole ItemOpen pre = 0 \<and> countRole ItemClose pre = 0
               \<and> countRole ItemOpen mid = countRole ItemClose mid))
       \<and> (\<forall>m it (t :: 'x state). 5 * remaining (reader t) + 2 \<le> m \<longrightarrow> renderListItem m X it t \<noteq> None)
       \<and> (\<forall>n (s :: 'x state) b s'. render n X s = Some (Inr (b, s')) \<longrightarrow>
            int (countRole ItemOpen (writer s')) - int (countRole ItemOpen (writer s))
              = int (countRole ItemClose (writer s')) - int (countRole ItemClose (writer s)))"
proof (intro conjI allI impI)
  fix m it and t :: "'x state" and nx t'
  assume r: "renderListItem m X it t = Some (nx, t')"
  then obtain k where m: "m = Suc k" by (cases m) auto
  with r obtain f s0 where t: "renderItemText X it t = (f, s0)"
    and l: "renderListItemLoop k X (itemDef it) f s0 = Some (nx, t')"
    by (auto split: prod.splits)
  from writer_renderItemText [OF t] obtain pre tx where
    p: "writer s0 = writer t @ pre @ [(ItemOpen, itemOpenTag (itemDef it)), (ItemText, tx)]"
    and z: "countRole ItemOpen pre = 0" "countRole ItemClose pre = 0" by blast
  from item_loop_shape [OF C l] obtain mid where
    q: "writer t' = writer s0 @ mid @ [(ItemClose, itemCloseTag (itemDef it))]"
    and b: "countRole ItemOpen mid = countRole ItemClose mid" by blast
  from p q have "writer t' = writer t @ pre
      @ [(ItemOpen, itemOpenTag (itemDef it)), (ItemText, tx)]
      @ mid @ [(ItemClose, itemCloseTag (itemDef it))]" by simp
  with z b show "\<exists>pre txt mid.
      writer t' = writer t @ pre
         @ [(ItemOpen, itemOpenTag (itemDef it)), (ItemText, txt)]
         @ mid @ [(ItemClose, itemCloseTag (itemDef it))]
      \<and> countRole ItemOpen pre = 0 \<and> countRole ItemClose pre = 0
      \<and> countRole ItemOpen mid = countRole ItemClose mid" by blast
next
  fix m it and t :: "'x state"
  assume "5 * remaining (reader t) + 2 \<le> m"
  with enough_fuel [OF C, of m] show "renderListItem m X it t \<noteq> None" by blast
next
  fix n and s :: "'x state" and b s'
  assume r: "render n X s = Some (Inr (b, s'))"
  show "int (countRole ItemOpen (writer s')) - int (countRole ItemOpen (writer s))
      = int (countRole ItemClose (writer s')) - int (countRole ItemClose (writer s))"
  proof (cases "eof (reader s)")
    case True
    with r show ?thesis by (simp add: render_def)
  next
    case False
    obtain r0 nx where m: "matchItem X (reader s) [] = (r0, nx)"
      by (cases "matchItem X (reader s) []")
    show ?thesis
    proof (cases nx)
      case None
      with False m r show ?thesis by (auto simp: render_def)
    next
      case (Some g)
      with matchItem_no_attachments [of X "reader s" r0 g] m obtain it where g: "g = Item it"
        by auto
      with False m Some r obtain nx' where
        l: "renderList n X it (s\<lparr>reader := r0, ids := []\<rparr>) = Some (nx', s')"
        by (auto simp: render_def split: option.splits)
      from depths [OF C, of n, THEN conjunct1, rule_format, OF l] show ?thesis
        by (simp add: depth_count)
    qed
  qed
qed

theorem item_tags_balanced_witness:
  "delimitedBlocksContract exampleExt
   \<and> 5 * remaining (reader (start [str ''- one'', str ''  * nested'', str ''- two''])) + 2 \<le> 20
   \<and> (\<exists>t'. renderListItem 20 exampleExt
               \<lparr>itemMatch = [str ''- one'', str ''-'', str ''one''],
                 itemDef = defs ! 0, itemId = str ''-''\<rparr>
               ((start [str ''- one'', str ''  * nested'', str ''- two''])\<lparr>ids := [str ''-'']\<rparr>)
              = Some (Some \<lparr>itemMatch = [str ''- two'', str ''-'', str ''two''],
                             itemDef = defs ! 0, itemId = str ''-''\<rparr>, t')
          \<and> map fst (writer t')
              = [ItemOpen, ItemText, ListOpen, ItemOpen, ItemText, ItemClose, ListClose, ItemClose])
   \<and> (\<exists>s'. render 20 exampleExt (start [str ''- one'', str ''  * nested'', str ''- two''])
              = Some (Inr (True, s'))
          \<and> countRole ItemOpen (writer s') = 3 \<and> countRole ItemClose (writer s') = 3)"
proof -
  let ?L = "[str ''- one'', str ''  * nested'', str ''- two'']"
  let ?it = "\<lparr>itemMatch = [str ''- one'', str ''-'', str ''one''],
                 itemDef = defs ! 0, itemId = str ''-''\<rparr>"
  note T = item_tags_balanced [OF exampleExt_contract]
  have h: "5 * remaining (reader (start ?L)) + 2 \<le> 20"
    by (simp add: start_def remaining_def)
  with T have "renderListItem 20 exampleExt ?it ((start ?L)\<lparr>ids := [str ''-'']\<rparr>) \<noteq> None"
    by simp
  have i: "\<exists>t'. renderListItem 20 exampleExt ?it ((start ?L)\<lparr>ids := [str ''-'']\<rparr>)
              = Some (Some \<lparr>itemMatch = [str ''- two'', str ''-'', str ''two''],
                             itemDef = defs ! 0, itemId = str ''-''\<rparr>, t')
          \<and> map fst (writer t')
              = [ItemOpen, ItemText, ListOpen, ItemOpen, ItemText, ItemClose, ListClose, ItemClose]"
    by (simp add: regex_defs engine_defs cong: eval_cong)
  obtain s' where r: "render 20 exampleExt (start ?L) = Some (Inr (True, s'))"
    and c: "countRole ItemOpen (writer s') = 3"
    by (simp add: regex_defs engine_defs countRole_def cong: eval_cong)
  from T r have "int (countRole ItemOpen (writer s')) - int (countRole ItemOpen (writer (start ?L)))
      = int (countRole ItemClose (writer s')) - int (countRole ItemClose (writer (start ?L)))"
    by blast
  with c have "countRole ItemClose (writer s') = 3"
    by (simp add: start_def countRole_def)
  with h i r c exampleExt_contract show ?thesis by blast
qed

text \<open>
  C6. The escape is lost where \<open>matchItem\<close> is called on the line after a single blank
  line (line 165) or after an attached Delimited Block (line 140): the backslash is
  dropped and \<open>null\<close> returned, which closes the list with the reader still on the
  rewritten line, now an ordinary list item line. The next \<open>render\<close> from that reader
  renders it as a list.
\<close>

theorem escape_lost_after_blank_line:
  "(\<exists>s1 s2. render 20 exampleExt (start [str ''- a'', [], BACKSLASH # str ''- b''])
               = Some (Inr (True, s1))
           \<and> reader s1 = \<lparr>lines = [str ''- a'', [], str ''- b''], pos = 2\<rparr>
           \<and> toString (writer s1) = str ''<ul><li>a'' @ [NL] @ str ''</li></ul>''
           \<and> render 20 exampleExt (s1\<lparr>writer := []\<rparr>) = Some (Inr (True, s2))
           \<and> reader s2 = \<lparr>lines = [str ''- a'', [], str ''- b''], pos = 3\<rparr>
           \<and> toString (writer s2) = str ''<ul><li>b'' @ [NL] @ str ''</li></ul>'')
   \<and> (\<exists>s1 s2. render 20 exampleExt
                 (start [str ''- a'', [], str ''  x'', BACKSLASH # str ''- b''])
               = Some (Inr (True, s1))
           \<and> reader s1 = \<lparr>lines = [str ''- a'', [], str ''  x'', str ''- b''], pos = 3\<rparr>
           \<and> toString (writer s1) = str ''<ul><li>a'' @ [NL] @ str ''  x</li></ul>''
           \<and> render 20 exampleExt (s1\<lparr>writer := []\<rparr>) = Some (Inr (True, s2))
           \<and> toString (writer s2) = str ''<ul><li>b'' @ [NL] @ str ''</li></ul>'')"
  by (simp add: regex_defs engine_defs cong: eval_cong)

lemma matchItem_Item:
  assumes "matchItem X r atts = (r', Some (Item it))"
  shows "r' = r" and "matchItem X r as = (r, Some (Item it))"
proof -
  from assms have m: "matchDefs defs r (cursorLine r) = Some (r', Some (Item it))"
    by (auto simp: matchItem_def Let_def split: option.splits if_splits)
  from matchDefs_Item [OF m] show "r' = r" by blast
  with m show "matchItem X r as = (r, Some (Item it))"
    by (simp add: matchItem_def)
qed

lemma readToNext_Item:
  "snd (snd (readToNext X r w)) = Some (Item it) \<Longrightarrow>
   matchItem X (fst (readToNext X r w)) [] = (fst (readToNext X r w), Some (Item it))"
proof (induction "remaining r" arbitrary: r w rule: less_induct)
  case less
  show ?case
  proof (cases "eof r")
    case True
    with less.prems show ?thesis by (simp add: readToNext_eof)
  next
    case False
    note ne = this
    show ?thesis
    proof (cases "cursor r = Some []")
      case True
      let ?m = "matchItem X (nextLine r) blankLineAttachments"
      from ne True less.prems have "snd ?m = Some (Item it)"
        by (simp add: readToNext_blank split: if_splits)
      then have "?m = (fst ?m, Some (Item it))"
        by (cases ?m) simp
      from matchItem_Item [OF this] ne True less.prems show ?thesis
        by (simp add: readToNext_blank split: if_splits)
    next
      case False
      note nb = this
      let ?m = "matchItem X r textAttachments"
      show ?thesis
      proof (cases "snd ?m = None")
        case True
        let ?r1 = "nextLine (fst ?m)"
        from ne have lt: "remaining ?r1 < remaining r"
          using remaining_nextLine_less [of "fst ?m"]
          by (simp add: matchItem_fst_remaining matchItem_fst_eof)
        from less.hyps [OF lt] less.prems ne nb True show ?thesis
          by (simp add: readToNext_text)
      next
        case False
        with ne nb less.prems have "snd ?m = Some (Item it)"
          by (simp add: readToNext_element)
        then have "?m = (fst ?m, Some (Item it))"
          by (cases ?m) simp
        from matchItem_Item [OF this] ne nb False show ?thesis
          by (simp add: readToNext_element)
      qed
    qed
  qed
qed

lemma renderItemText_Item:
  assumes "renderItemText X st s = (Some (Item it), s1)"
  shows "matchItem X (reader s1) [] = (reader s1, Some (Item it))"
  using assms
  by (auto simp: renderItemText_eval Let_def split: if_splits intro!: readToNext_Item)

lemma reader_closeItem: "reader (closeItem d s) = reader s"
  by (simp add: closeItem_def)

lemma returned_at_cursor:
  "(\<forall>(X :: 'x ext) st s j s1. renderList n X st s = Some (Some j, s1) \<longrightarrow>
      matchItem X (reader s1) [] = (reader s1, Some (Item j)))
 \<and> (\<forall>(X :: 'x ext) st s j s1. renderListLoop n X st s = Some (Some j, s1) \<longrightarrow>
      matchItem X (reader s1) [] = (reader s1, Some (Item j)))
 \<and> (\<forall>(X :: 'x ext) st s j s1. renderListItem n X st s = Some (Some j, s1) \<longrightarrow>
      matchItem X (reader s1) [] = (reader s1, Some (Item j)))
 \<and> (\<forall>(X :: 'x ext) d f s j s1. renderListItemLoop n X d f s = Some (Some j, s1) \<longrightarrow>
      (\<forall>it. f = Some (Item it) \<longrightarrow> matchItem X (reader s) [] = (reader s, Some (Item it))) \<longrightarrow>
      matchItem X (reader s1) [] = (reader s1, Some (Item j)))"
proof (induction n)
  case 0
  show ?case by simp
next
  case (Suc n)
  note L = Suc.IH [THEN conjunct1, rule_format]
  note LL = Suc.IH [THEN conjunct2, THEN conjunct1, rule_format]
  note I = Suc.IH [THEN conjunct2, THEN conjunct2, THEN conjunct1, rule_format]
  note IL = Suc.IH [THEN conjunct2, THEN conjunct2, THEN conjunct2, rule_format]
  have c1: "matchItem X (reader s1) [] = (reader s1, Some (Item j))"
    if "renderList (Suc n) X st s = Some (Some j, s1)" for X :: "'x ext" and st s j s1
    using that by (auto split: prod.splits dest!: LL)
  have c2: "matchItem X (reader s1) [] = (reader s1, Some (Item j))"
    if "renderListLoop (Suc n) X st s = Some (Some j, s1)" for X :: "'x ext" and st s j s1
    using that
    by (auto split: prod.splits option.splits if_splits dest!: LL I)
  have c3: "matchItem X (reader s1) [] = (reader s1, Some (Item j))"
    if "renderListItem (Suc n) X st s = Some (Some j, s1)" for X :: "'x ext" and st s j s1
  proof -
    from that obtain f s0 where t: "renderItemText X st s = (f, s0)"
      and l: "renderListItemLoop n X (itemDef st) f s0 = Some (Some j, s1)"
      by (auto split: prod.splits)
    have "\<forall>it. f = Some (Item it) \<longrightarrow> matchItem X (reader s0) [] = (reader s0, Some (Item it))"
      using t renderItemText_Item by blast
    with IL [OF l] show ?thesis by blast
  qed
  have c4: "matchItem X (reader s1) [] = (reader s1, Some (Item j))"
    if r: "renderListItemLoop (Suc n) X d f s = Some (Some j, s1)"
      and a: "\<forall>it. f = Some (Item it) \<longrightarrow> matchItem X (reader s) [] = (reader s, Some (Item it))"
    for X :: "'x ext" and d f s j s1
  proof (cases f)
    case None
    with r show ?thesis by simp
  next
    case (Some g)
    note f = this
    show ?thesis
    proof (cases "listItem g")
      case (Some it)
      then have g: "g = Item it" by (rule listItem_SomeD [THEN conjunct1])
      show ?thesis
      proof (cases "itemId it \<in> set (ids s)")
        case True
        with r f Some a g show ?thesis by (auto simp: reader_closeItem)
      next
        case False
        with r f Some obtain s' where "renderList n X it s = Some (Some j, s')"
          and "s1 = closeItem d s'"
          by (auto split: option.splits)
        with L [of X it s j s'] show ?thesis by (simp add: reader_closeItem)
      qed
    next
      case None
      let ?s1 = "renderAttached X s"
      let ?m = "matchItem X (reader ?s1) []"
      from r f None have ne: "\<not> eof (reader ?s1)"
        by (auto simp: Let_def)
      with r f None
      have l: "renderListItemLoop n X d (snd ?m) (?s1\<lparr>reader := fst ?m\<rparr>) = Some (Some j, s1)"
        by (auto simp: Let_def split: prod.splits)
      have "matchItem X (fst ?m) [] = (fst ?m, Some (Item it))" if "snd ?m = Some (Item it)" for it
      proof -
        from that have e: "?m = (fst ?m, Some (Item it))" by (cases ?m) simp
        from matchItem_Item(1) [OF e] matchItem_Item(2) [OF e, of "[]"] show ?thesis by simp
      qed
      with IL [OF l] show ?thesis by simp
    qed
  qed
  from c1 c2 c3 c4 show ?case by blast
qed

text \<open>
  C2. In the loop of \<open>renderListItem\<close>, a next list item whose ID is on the stack closes
  the current item and is returned; one whose ID is not on the stack starts a child list
  by a call of \<open>renderList\<close>, after which the item is closed and what the child list
  returned is returned. An item that \<open>renderListItem\<close> or \<open>renderList\<close> returns has an
  ID that is on the stack of the caller and is the match of the line the reader is on;
  \<open>renderList\<close> returns it only when its ID is not the one of its own list, with its
  own ID popped, and goes on with it as the next item of its list otherwise.
\<close>

theorem next_item_goes_to_its_list:
  "(listItem f = Some it \<and> itemId it \<in> set (ids s) \<longrightarrow>
      renderListItemLoop (Suc n) X d (Some f) s = Some (Some it, closeItem d s))
 \<and> (listItem f = Some it \<and> itemId it \<notin> set (ids s) \<longrightarrow>
      renderListItemLoop (Suc n) X d (Some f) s
        = (case renderList n X it s of
             None \<Rightarrow> None
           | Some (nx, s1) \<Rightarrow> Some (nx, closeItem d s1)))
 \<and> (renderListItem m X st t = Some (Some j, t') \<longrightarrow>
      itemId j \<in> set (ids t) \<and> ids t' = ids t
      \<and> matchItem X (reader t') [] = (reader t', Some (Item j)))
 \<and> (renderListItem m X st t = Some (Some j, t') \<and> itemId j = itemId st \<longrightarrow>
      renderListLoop (Suc m) X st t = renderListLoop m X j t')
 \<and> (renderListItem m X st t = Some (Some j, t') \<and> itemId j \<noteq> itemId st \<longrightarrow>
      renderListLoop (Suc m) X st t
        = Some (Some j, t'\<lparr>writer := writeFrag ListClose (listCloseTag (itemDef st)) (writer t'),
                            ids := butlast (ids t')\<rparr>))
 \<and> (renderList m X st t = Some (Some j, t') \<longrightarrow>
      itemId j \<noteq> itemId st \<and> itemId j \<in> set (ids t) \<and> ids t' = ids t
      \<and> matchItem X (reader t') [] = (reader t', Some (Item j)))"
proof -
  have p1: "listItem f = Some it \<and> itemId it \<in> set (ids s) \<longrightarrow>
      renderListItemLoop (Suc n) X d (Some f) s = Some (Some it, closeItem d s)"
    by simp
  have p2: "listItem f = Some it \<and> itemId it \<notin> set (ids s) \<longrightarrow>
      renderListItemLoop (Suc n) X d (Some f) s
        = (case renderList n X it s of
             None \<Rightarrow> None
           | Some (nx, s1) \<Rightarrow> Some (nx, closeItem d s1))"
    by simp
  have p3: "renderListItem m X st t = Some (Some j, t') \<longrightarrow>
      itemId j \<in> set (ids t) \<and> ids t' = ids t
      \<and> matchItem X (reader t') [] = (reader t', Some (Item j))"
  proof
    assume r: "renderListItem m X st t = Some (Some j, t')"
    from ids_invariant [of m, THEN conjunct2, THEN conjunct2, THEN conjunct1, rule_format, OF r]
      returned_at_cursor [of m, THEN conjunct2, THEN conjunct2, THEN conjunct1, rule_format, OF r]
    show "itemId j \<in> set (ids t) \<and> ids t' = ids t
        \<and> matchItem X (reader t') [] = (reader t', Some (Item j))"
      by simp
  qed
  have p4: "renderListItem m X st t = Some (Some j, t') \<and> itemId j = itemId st \<longrightarrow>
      renderListLoop (Suc m) X st t = renderListLoop m X j t'"
    by simp
  have p5: "renderListItem m X st t = Some (Some j, t') \<and> itemId j \<noteq> itemId st \<longrightarrow>
      renderListLoop (Suc m) X st t
        = Some (Some j, t'\<lparr>writer := writeFrag ListClose (listCloseTag (itemDef st)) (writer t'),
                            ids := butlast (ids t')\<rparr>)"
    by simp
  have p6: "renderList m X st t = Some (Some j, t') \<longrightarrow>
      itemId j \<noteq> itemId st \<and> itemId j \<in> set (ids t) \<and> ids t' = ids t
      \<and> matchItem X (reader t') [] = (reader t', Some (Item j))"
  proof
    assume r: "renderList m X st t = Some (Some j, t')"
    then obtain k where m: "m = Suc k" by (cases m) auto
    obtain tag e where i: "injectHtmlAttributes X (env t) (listOpenTag (itemDef st)) = (tag, e)"
      by (cases "injectHtmlAttributes X (env t) (listOpenTag (itemDef st))")
    let ?t = "t\<lparr>ids := ids t @ [itemId st], writer := writeFrag ListOpen tag (writer t),
                 env := e\<rparr>"
    from r m i have l: "renderListLoop k X st ?t = Some (Some j, t')" by simp
    from ids_invariant [of k, THEN conjunct2, THEN conjunct1, rule_format, OF l]
    have "itemId j \<noteq> itemId st" by simp
    with ids_invariant [of m, THEN conjunct1, rule_format, OF r]
      returned_at_cursor [of m, THEN conjunct1, rule_format, OF r]
    show "itemId j \<noteq> itemId st \<and> itemId j \<in> set (ids t) \<and> ids t' = ids t
        \<and> matchItem X (reader t') [] = (reader t', Some (Item j))"
      by simp
  qed
  show ?thesis
    by (rule conjI [OF p1 conjI [OF p2 conjI [OF p3 conjI [OF p4 conjI [OF p5 p6]]]]])
qed

theorem next_item_goes_to_its_list_witness:
  "listItem (Item \<lparr>itemMatch = [str ''- two'', str ''-'', str ''two''],
                    itemDef = defs ! 0, itemId = str ''-''\<rparr>)
     = Some \<lparr>itemMatch = [str ''- two'', str ''-'', str ''two''],
             itemDef = defs ! 0, itemId = str ''-''\<rparr>
   \<and> str ''-'' \<in> set [str ''-'', str ''*'']
   \<and> renderListItemLoop 20 exampleExt (defs ! 0)
        (Some (Item \<lparr>itemMatch = [str ''- two'', str ''-'', str ''two''],
                      itemDef = defs ! 0, itemId = str ''-''\<rparr>))
        \<lparr>reader = \<lparr>lines = [str ''- one'', str ''* nested'', str ''- two''], pos = 2\<rparr>,
          writer = [], ids = [str ''-'', str ''*''], env = ()\<rparr>
      = Some (Some \<lparr>itemMatch = [str ''- two'', str ''-'', str ''two''],
                    itemDef = defs ! 0, itemId = str ''-''\<rparr>,
              \<lparr>reader = \<lparr>lines = [str ''- one'', str ''* nested'', str ''- two''], pos = 2\<rparr>,
                writer = [(ItemClose, str ''</li>'')], ids = [str ''-'', str ''*''], env = ()\<rparr>)
   \<and> str ''*'' \<notin> set [str ''-'']
   \<and> (\<exists>t'. renderListItemLoop 20 exampleExt (defs ! 0)
          (Some (Item \<lparr>itemMatch = [str ''* nested'', str ''*'', str ''nested''],
                        itemDef = defs ! 0, itemId = str ''*''\<rparr>))
          \<lparr>reader = \<lparr>lines = [str ''- one'', str ''* nested'', str ''- two''], pos = 1\<rparr>,
            writer = [], ids = [str ''-''], env = ()\<rparr>
        = Some (Some \<lparr>itemMatch = [str ''- two'', str ''-'', str ''two''],
                      itemDef = defs ! 0, itemId = str ''-''\<rparr>, t')
        \<and> reader t' = \<lparr>lines = [str ''- one'', str ''* nested'', str ''- two''], pos = 2\<rparr>
        \<and> toString (writer t') = str ''<ul><li>nested'' @ [NL] @ str ''</li></ul></li>'')
   \<and> (\<exists>t'. renderList 19 exampleExt
          \<lparr>itemMatch = [str ''* nested'', str ''*'', str ''nested''],
            itemDef = defs ! 0, itemId = str ''*''\<rparr>
          \<lparr>reader = \<lparr>lines = [str ''- one'', str ''* nested'', str ''- two''], pos = 1\<rparr>,
            writer = [], ids = [str ''-''], env = ()\<rparr>
        = Some (Some \<lparr>itemMatch = [str ''- two'', str ''-'', str ''two''],
                      itemDef = defs ! 0, itemId = str ''-''\<rparr>, t')
        \<and> ids t' = [str ''-'']
        \<and> matchItem exampleExt (reader t') []
            = (reader t', Some (Item \<lparr>itemMatch = [str ''- two'', str ''-'', str ''two''],
                                       itemDef = defs ! 0, itemId = str ''-''\<rparr>)))"
proof -
  let ?L = "[str ''- one'', str ''* nested'', str ''- two'']"
  let ?two = "\<lparr>itemMatch = [str ''- two'', str ''-'', str ''two''],
                  itemDef = defs ! 0, itemId = str ''-''\<rparr>"
  let ?nested = "\<lparr>itemMatch = [str ''* nested'', str ''*'', str ''nested''],
                     itemDef = defs ! 0, itemId = str ''*''\<rparr>"
  let ?s2 = "\<lparr>reader = \<lparr>lines = ?L, pos = 2\<rparr>, writer = [],
               ids = [str ''-'', str ''*''], env = ()\<rparr>"
  let ?s1 = "\<lparr>reader = \<lparr>lines = ?L, pos = 1\<rparr>, writer = [], ids = [str ''-''], env = ()\<rparr>"
  have a1: "listItem (Item ?two) = Some ?two" by (simp add: str_def)
  have a2: "str ''-'' \<in> set [str ''-'', str ''*'']" by simp
  have a3: "str ''*'' \<notin> set [str ''-'']" by (simp add: str_def)
  have b1: "listItem (Item ?nested) = Some ?nested" by (simp add: str_def)
  from next_item_goes_to_its_list [of "Item ?two" ?two ?s2 19 exampleExt "defs ! 0"] a1 a2
  have c1: "renderListItemLoop (Suc 19) exampleExt (defs ! 0) (Some (Item ?two)) ?s2
      = Some (Some ?two, closeItem (defs ! 0) ?s2)"
    by simp
  have c1': "renderListItemLoop 20 exampleExt (defs ! 0) (Some (Item ?two)) ?s2
      = Some (Some ?two, \<lparr>reader = \<lparr>lines = ?L, pos = 2\<rparr>,
                writer = [(ItemClose, str ''</li>'')], ids = [str ''-'', str ''*''], env = ()\<rparr>)"
    using c1 by (simp add: closeItem_def writeFrag_def defs_def)
  have l: "\<exists>t'. renderList 19 exampleExt ?nested ?s1 = Some (Some ?two, t')"
    by (simp add: regex_defs engine_defs cong: eval_cong)
  then obtain t' where l': "renderList 19 exampleExt ?nested ?s1 = Some (Some ?two, t')"
    by blast
  from next_item_goes_to_its_list [of _ _ _ _ exampleExt _ 19 ?nested ?s1 ?two t'] l'
  have c3: "ids t' = ids ?s1
      \<and> matchItem exampleExt (reader t') [] = (reader t', Some (Item ?two))"
    by blast
  have c2: "\<exists>t'. renderListItemLoop 20 exampleExt (defs ! 0) (Some (Item ?nested)) ?s1
        = Some (Some ?two, t')
        \<and> reader t' = \<lparr>lines = ?L, pos = 2\<rparr>
        \<and> toString (writer t') = str ''<ul><li>nested'' @ [NL] @ str ''</li></ul></li>''"
    by (simp add: regex_defs engine_defs cong: eval_cong)
  from c3 l' have "\<exists>t'. renderList 19 exampleExt ?nested ?s1 = Some (Some ?two, t')
        \<and> ids t' = [str ''-'']
        \<and> matchItem exampleExt (reader t') [] = (reader t', Some (Item ?two))"
    by auto
  with a1 a2 a3 c1' c2 show ?thesis by blast
qed

lemma matchItem_ext: "openMatch X' = openMatch X \<Longrightarrow> matchItem X' r atts = matchItem X r atts"
  by (simp add: matchItem_def Let_def split: option.splits)

lemma readToNext_ext:
  assumes o: "openMatch X' = openMatch X"
  shows "readToNext X' r w = readToNext X r w"
proof (induction "remaining r" arbitrary: r w rule: less_induct)
  case less
  note m = matchItem_ext [OF o]
  show ?case
  proof (cases "eof r")
    case True
    then show ?thesis by (simp add: readToNext_eof)
  next
    case False
    note ne = this
    show ?thesis
    proof (cases "cursor r = Some []")
      case True
      with ne show ?thesis by (simp add: readToNext_blank m)
    next
      case False
      note nb = this
      show ?thesis
      proof (cases "snd (matchItem X r textAttachments) = None")
        case True
        let ?r1 = "nextLine (fst (matchItem X r textAttachments))"
        from ne have lt: "remaining ?r1 < remaining r"
          using remaining_nextLine_less [of "fst (matchItem X r textAttachments)"]
          by (simp add: matchItem_fst_remaining matchItem_fst_eof)
        from less [OF lt] ne nb True show ?thesis
          by (simp add: readToNext_text m)
      next
        case False
        with ne nb show ?thesis by (simp add: readToNext_element m)
      qed
    qed
  qed
qed

lemma renderItemText_ext:
  assumes "replaceInline X' = replaceInline X" and "openMatch X' = openMatch X"
  shows "renderItemText X' it s = renderItemText X it s"
  using assms readToNext_ext [OF assms(2)]
  by (simp add: renderItemText_eval Let_def cong: if_cong)

lemma engine_ext:
  assumes r: "replaceInline X' = replaceInline (X :: 'x ext)"
    and i: "injectHtmlAttributes X' = injectHtmlAttributes X"
    and o: "openMatch X' = openMatch X"
    and a: "\<And>s. renderAttached X' s = renderAttached X s"
  shows "(\<forall>it s. renderList n X' it s = renderList n X it s)
       \<and> (\<forall>it s. renderListLoop n X' it s = renderListLoop n X it s)
       \<and> (\<forall>it s. renderListItem n X' it s = renderListItem n X it s)
       \<and> (\<forall>d f s. renderListItemLoop n X' d f s = renderListItemLoop n X d f s)"
proof (induction n)
  case 0
  show ?case by simp
next
  case (Suc n)
  note L = Suc.IH [THEN conjunct1, rule_format]
  note LL = Suc.IH [THEN conjunct2, THEN conjunct1, rule_format]
  note I = Suc.IH [THEN conjunct2, THEN conjunct2, THEN conjunct1, rule_format]
  note IL = Suc.IH [THEN conjunct2, THEN conjunct2, THEN conjunct2, rule_format]
  have c1: "renderList (Suc n) X' it s = renderList (Suc n) X it s" for it s
    by (simp add: i LL split: prod.splits)
  have c2: "renderListLoop (Suc n) X' it s = renderListLoop (Suc n) X it s" for it s
    by (simp add: I LL split: prod.splits option.splits)
  have c3: "renderListItem (Suc n) X' it s = renderListItem (Suc n) X it s" for it s
    by (simp add: renderItemText_ext [OF r o] IL split: prod.splits)
  have c4: "renderListItemLoop (Suc n) X' d f s = renderListItemLoop (Suc n) X d f s" for d f s
    by (cases f) (simp_all add: L IL a matchItem_ext [OF o] Let_def split: prod.splits option.splits)
  from c1 c2 c3 c4 show ?case by blast
qed

lemma render_ext:
  assumes r: "replaceInline X' = replaceInline (X :: 'x ext)"
    and i: "injectHtmlAttributes X' = injectHtmlAttributes X"
    and o: "openMatch X' = openMatch X"
    and a: "\<And>s. renderAttached X' s = renderAttached X s"
  shows "render n X' s = render n X s"
  using engine_ext [OF r i o a, of n] matchItem_ext [OF o]
  by (simp add: render_def split: prod.splits option.splits found.splits)

lemma probeExt_simps:
  "replaceInline probeExt e t = (t, e)"
  "injectHtmlAttributes probeExt e t = (t, e)"
  "dbRender probeExt s = s\<lparr>reader := nextLine (reader s),
      writer := writeFrag Other (str ''ids:'' @ concat (ids s)) (writer s),
      ids := [str ''left behind'']\<rparr>"
  "openMatch probeExt name line = (name = ''indented'' \<and> take 2 line = str ''  '')"
  by (simp_all add: probeExt_def exampleExt_def)

text \<open>
  C7. When the next element of a list item is an attached Delimited Block,
  \<open>delimitedBlocks.render\<close> is called with \<open>ids\<close> replaced by an empty stack; after the
  call the stack that was saved is put back, whatever the call left in \<open>ids\<close>, and the
  blank lines after the block are skipped; at the end of the input the item is closed,
  and otherwise \<open>matchItem\<close> (for list items only) is applied to the line the reader is
  then on, which is not blank, and the loop goes on with its result. So the loop
  returns with \<open>ids\<close> as it found it, and a render does not depend on what
  \<open>delimitedBlocks.render\<close> does with a non-empty stack or on what it leaves in \<open>ids\<close>.
\<close>

theorem attached_block_fresh_stack:
  "(listItem f = None \<longrightarrow>
      renderListItemLoop (Suc n) X d (Some f) s =
        (let s1 = (dbRender X (s\<lparr>ids := []\<rparr>))\<lparr>ids := ids s\<rparr>;
             s2 = s1\<lparr>reader := skipBlankLines (reader s1)\<rparr>
         in if eof (reader s2) then Some (None, closeItem d s2)
            else renderListItemLoop n X d (snd (matchItem X (reader s2) []))
                   (s2\<lparr>reader := fst (matchItem X (reader s2) [])\<rparr>))
      \<and> (eof (skipBlankLines (reader (dbRender X (s\<lparr>ids := []\<rparr>))))
          \<or> \<not> list_all isSpace
                (lines (skipBlankLines (reader (dbRender X (s\<lparr>ids := []\<rparr>))))
                   ! pos (skipBlankLines (reader (dbRender X (s\<lparr>ids := []\<rparr>))))))
      \<and> (\<forall>nx s'. renderListItemLoop (Suc n) X d (Some f) s = Some (nx, s') \<longrightarrow> ids s' = ids s))
 \<and> (\<forall>m (t :: 'x state). render m (X\<lparr>dbRender := \<lambda>u. dbRender X (u\<lparr>ids := []\<rparr>)\<rparr>) t
        = render m (X :: 'x ext) t)
 \<and> (\<forall>js m (t :: 'x state). render m (X\<lparr>dbRender := \<lambda>u. (dbRender X u)\<lparr>ids := js\<rparr>\<rparr>) t
        = render m X t)
 \<and> (\<forall>m st (t :: 'x state).
        renderListItem m (X\<lparr>dbRender := \<lambda>u. dbRender X (u\<lparr>ids := []\<rparr>)\<rparr>) st t
        = renderListItem m X st t)
 \<and> (\<forall>js m st (t :: 'x state).
        renderListItem m (X\<lparr>dbRender := \<lambda>u. (dbRender X u)\<lparr>ids := js\<rparr>\<rparr>) st t
        = renderListItem m X st t)"
proof -
  let ?A = "X\<lparr>dbRender := \<lambda>u. dbRender X (u\<lparr>ids := []\<rparr>)\<rparr>"
  have p1: "listItem f = None \<longrightarrow>
      renderListItemLoop (Suc n) X d (Some f) s =
        (let s1 = (dbRender X (s\<lparr>ids := []\<rparr>))\<lparr>ids := ids s\<rparr>;
             s2 = s1\<lparr>reader := skipBlankLines (reader s1)\<rparr>
         in if eof (reader s2) then Some (None, closeItem d s2)
            else renderListItemLoop n X d (snd (matchItem X (reader s2) []))
                   (s2\<lparr>reader := fst (matchItem X (reader s2) [])\<rparr>))
      \<and> (eof (skipBlankLines (reader (dbRender X (s\<lparr>ids := []\<rparr>))))
          \<or> \<not> list_all isSpace
                (lines (skipBlankLines (reader (dbRender X (s\<lparr>ids := []\<rparr>))))
                   ! pos (skipBlankLines (reader (dbRender X (s\<lparr>ids := []\<rparr>))))))
      \<and> (\<forall>nx s'. renderListItemLoop (Suc n) X d (Some f) s = Some (nx, s') \<longrightarrow> ids s' = ids s)"
  proof (intro impI conjI allI)
    assume n: "listItem f = None"
    then show "renderListItemLoop (Suc n) X d (Some f) s =
        (let s1 = (dbRender X (s\<lparr>ids := []\<rparr>))\<lparr>ids := ids s\<rparr>;
             s2 = s1\<lparr>reader := skipBlankLines (reader s1)\<rparr>
         in if eof (reader s2) then Some (None, closeItem d s2)
            else renderListItemLoop n X d (snd (matchItem X (reader s2) []))
                   (s2\<lparr>reader := fst (matchItem X (reader s2) [])\<rparr>))"
      by (simp add: renderAttached_def Let_def split: prod.splits)
  next
    show "eof (skipBlankLines (reader (dbRender X (s\<lparr>ids := []\<rparr>))))
        \<or> \<not> list_all isSpace
              (lines (skipBlankLines (reader (dbRender X (s\<lparr>ids := []\<rparr>))))
                 ! pos (skipBlankLines (reader (dbRender X (s\<lparr>ids := []\<rparr>)))))"
      by (rule skipBlankLines_stops)
  next
    fix nx s'
    assume "renderListItemLoop (Suc n) X d (Some f) s = Some (nx, s')"
    from ids_invariant [of "Suc n", THEN conjunct2, THEN conjunct2, THEN conjunct2,
        rule_format, OF this]
    show "ids s' = ids s" by simp
  qed
  have a1: "renderAttached ?A u = renderAttached X u" for u
    by (simp add: renderAttached_def Let_def)
  have a2: "renderAttached (X\<lparr>dbRender := \<lambda>u. (dbRender X u)\<lparr>ids := js\<rparr>\<rparr>) u
      = renderAttached X u" for js u
    by (simp add: renderAttached_def Let_def)
  have p2: "\<forall>m t. render m ?A t = render m X t"
    by (intro allI render_ext a1) simp_all
  have p3: "\<forall>js m t. render m (X\<lparr>dbRender := \<lambda>u. (dbRender X u)\<lparr>ids := js\<rparr>\<rparr>) t
      = render m X t"
    by (intro allI render_ext a2) simp_all
  have p4: "\<forall>m st t. renderListItem m ?A st t = renderListItem m X st t"
  proof (intro allI)
    fix m st t
    from engine_ext [of ?A X m, OF _ _ _ a1] show "renderListItem m ?A st t = renderListItem m X st t"
      by simp
  qed
  have p5: "\<forall>js m st t.
      renderListItem m (X\<lparr>dbRender := \<lambda>u. (dbRender X u)\<lparr>ids := js\<rparr>\<rparr>) st t
      = renderListItem m X st t"
  proof (intro allI)
    fix js m st t
    from engine_ext [of "X\<lparr>dbRender := \<lambda>u. (dbRender X u)\<lparr>ids := js\<rparr>\<rparr>" X m, OF _ _ _ a2]
    show "renderListItem m (X\<lparr>dbRender := \<lambda>u. (dbRender X u)\<lparr>ids := js\<rparr>\<rparr>) st t
      = renderListItem m X st t"
      by simp
  qed
  show ?thesis
    by (rule conjI [OF p1 conjI [OF p2 conjI [OF p3 conjI [OF p4 p5]]]])
qed

theorem attached_block_fresh_stack_witness:
  "listItem Block = None
   \<and> renderListItemLoop 20 probeExt (defs ! 0) (Some Block)
        \<lparr>reader = \<lparr>lines = [str ''- a'', [], str ''  x'', [], str '' '', str ''- c''], pos = 2\<rparr>,
          writer = [], ids = [str ''-''], env = ()\<rparr>
      = Some (Some \<lparr>itemMatch = [str ''- c'', str ''-'', str ''c''],
                    itemDef = defs ! 0, itemId = str ''-''\<rparr>,
              \<lparr>reader = \<lparr>lines = [str ''- a'', [], str ''  x'', [], str '' '', str ''- c''],
                          pos = 5\<rparr>,
                writer = [(Other, str ''ids:''), (ItemClose, str ''</li>'')],
                ids = [str ''-''], env = ()\<rparr>)
   \<and> renderString 20 probeExt [str ''- a'', [], str ''  x'', [], str '' '', str ''- c'']
      = Some (Inr (True, 6,
          str ''<ul><li>a'' @ [NL] @ str ''ids:</li><li>c'' @ [NL] @ str ''</li></ul>''))"
proof -
  let ?L = "[str ''- a'', [], str ''  x'', [], str '' '', str ''- c'']"
  let ?s = "\<lparr>reader = \<lparr>lines = ?L, pos = 2\<rparr>, writer = [], ids = [str ''-''], env = ()\<rparr>"
  have h: "listItem Block = None" by simp
  from attached_block_fresh_stack [of Block 19 probeExt "defs ! 0" ?s] h
  have "renderListItemLoop (Suc 19) probeExt (defs ! 0) (Some Block) ?s =
        (let s1 = (dbRender probeExt (?s\<lparr>ids := []\<rparr>))\<lparr>ids := ids ?s\<rparr>;
             s2 = s1\<lparr>reader := skipBlankLines (reader s1)\<rparr>
         in if eof (reader s2) then Some (None, closeItem (defs ! 0) s2)
            else renderListItemLoop 19 probeExt (defs ! 0) (snd (matchItem probeExt (reader s2) []))
                   (s2\<lparr>reader := fst (matchItem probeExt (reader s2) [])\<rparr>))"
    by blast
  then have "renderListItemLoop 20 probeExt (defs ! 0) (Some Block) ?s
      = Some (Some \<lparr>itemMatch = [str ''- c'', str ''-'', str ''c''],
                    itemDef = defs ! 0, itemId = str ''-''\<rparr>,
              \<lparr>reader = \<lparr>lines = ?L, pos = 5\<rparr>,
                writer = [(Other, str ''ids:''), (ItemClose, str ''</li>'')],
                ids = [str ''-''], env = ()\<rparr>)"
    by (simp add: regex_defs engine_defs probeExt_simps cong: eval_cong)
  moreover have "renderString 20 probeExt ?L
      = Some (Inr (True, 6,
          str ''<ul><li>a'' @ [NL] @ str ''ids:</li><li>c'' @ [NL] @ str ''</li></ul>''))"
    by (simp add: regex_defs engine_defs probeExt_simps cong: eval_cong)
  ultimately show ?thesis using h by blast
qed

lemma exec_term_definition:
  "matchDefs defs r (str ''Term:: Definition'')
     = Some (r, Some (Item \<lparr>itemMatch = [str ''Term:: Definition'', str ''Term'', str ''::'',
                                         str '' Definition''],
                            itemDef = defs ! 2, itemId = str ''::''\<rparr>))"
  by (simp add: regex_defs engine_defs cong: eval_cong)

text \<open>
  C8. On the single line \<open>Term:: Definition\<close> the third capture group of the expression
  for definition lists is the rest of the line after the colons, with its leading space,
  and \<open>renderListItem\<close> adds a line feed to the item text before the inline replacement.
  So \<open>render\<close> returns true at the end of the input with an empty stack and has written one
  definition list in eight fragments: the \<open><dl>\<close> tag with the attributes injected,
  \<open><dt>\<close>, the inline replacement of \<open>Term\<close>, \<open></dt>\<close>, \<open><dd>\<close>, the inline replacement of
  the text \<open> Definition\<close> followed by a line feed, \<open></dd>\<close> and \<open></dl>\<close>.
\<close>

theorem definition_list_single_line:
  "render (Suc (Suc (Suc (Suc n)))) X
      \<lparr>reader = \<lparr>lines = [str ''Term:: Definition''], pos = 0\<rparr>, writer = [], ids = js, env = e\<rparr>
   = (let a = injectHtmlAttributes X e (str ''<dl>'');
          b = replaceInline X (snd a) (str ''Term'');
          c = replaceInline X (snd b) (str '' Definition'' @ [NL])
      in Some (Inr (True,
           \<lparr>reader = \<lparr>lines = [str ''Term:: Definition''], pos = 1\<rparr>,
             writer = [(ListOpen, fst a), (TermOpen, str ''<dt>''), (TermText, fst b),
                       (TermClose, str ''</dt>''), (ItemOpen, str ''<dd>''), (ItemText, fst c),
                       (ItemClose, str ''</dd>''), (ListClose, str ''</dl>'')],
             ids = [], env = snd c\<rparr>)))"
proof -
  let ?r = "\<lparr>lines = [str ''Term:: Definition''], pos = 0\<rparr>"
  have c: "cursorLine ?r = str ''Term:: Definition''" and ne: "\<not> eof ?r"
    by (simp_all add: cursorLine_def cursor_def eof_def)
  have m: "matchItem X ?r [] =
      (?r, Some (Item \<lparr>itemMatch = [str ''Term:: Definition'', str ''Term'', str ''::'',
                                         str '' Definition''],
                            itemDef = defs ! 2, itemId = str ''::''\<rparr>))"
    by (simp add: matchItem_def Let_def c exec_term_definition)
  have d: "defs ! 2 = \<lparr>matchRe = DefinitionRe, listOpenTag = str ''<dl>'', listCloseTag = str ''</dl>'',
      itemOpenTag = str ''<dd>'', itemCloseTag = str ''</dd>'',
      termOpenTag = Some (str ''<dt>''), termCloseTag = Some (str ''</dt>'')\<rparr>"
    by (simp add: defs_def)
  have n1: "nextLine ?r = \<lparr>lines = [str ''Term:: Definition''], pos = Suc 0\<rparr>"
    by (simp add: nextLine_def eof_def)
  have rt: "readToNext X \<lparr>lines = [str ''Term:: Definition''], pos = Suc 0\<rparr> w
      = (\<lparr>lines = [str ''Term:: Definition''], pos = Suc 0\<rparr>, w, None)" for w
    by (simp add: readToNext.simps eof_def)
  show ?thesis
    by (simp add: render_def ne m d renderItemText_def rt n1 group_def termTag_def writeFrag_def
        toString_def closeItem_def Let_def split: prod.splits)
qed

text \<open>
  With an inline replacement that leaves plain text as it is and no attributes to inject,
  the output for \<open>Term:: Definition\<close> is \<open><dl><dt>Term</dt><dd> Definition\<close>, a line feed and
  \<open></dd></dl>\<close>: it is not the string \<open><dl><dt>Term</dt><dd>Definition</dd></dl>\<close>.
\<close>

theorem definition_list_output_has_white_space:
  "renderString 20 exampleExt [str ''Term:: Definition'']
     = Some (Inr (True, 1, str ''<dl><dt>Term</dt><dd> Definition'' @ [NL] @ str ''</dd></dl>''))
   \<and> renderString 20 exampleExt [str ''Term:: Definition'']
     \<noteq> Some (Inr (True, 1, str ''<dl><dt>Term</dt><dd>Definition</dd></dl>''))"
  by (simp add: regex_defs engine_defs cong: eval_cong)

text \<open>
  C4. While the text of a list item is read, \<open>readToNext\<close> returns null at the end of the
  input. On a blank line it moves the reader one line on and returns null when that
  line is blank too or the input ends there. After a single blank line it returns what
  \<open>matchItem\<close> finds on the next line with the indented block as the only attachment: a
  list item, an attached block when the line matches no list expression and opens an
  indented block, and null, with the reader left on that line, when the line matches
  no list expression and opens no indented block. The null that \<open>readToNext\<close> returns ends
  every open item and list: \<open>renderListItem\<close> writes the item close tag and returns null
  with the reader where \<open>readToNext\<close> left it; a list whose item returns null writes its
  close tag, pops its ID and returns null; and an item whose child list returns null
  writes its close tag and returns null.
\<close>

theorem blank_lines_in_item_text:
  "(eof r \<longrightarrow> readToNext X r w = (r, w, None))
 \<and> (\<not> eof r \<and> cursor r = Some [] \<and> (cursor (nextLine r) = Some [] \<or> eof (nextLine r)) \<longrightarrow>
      readToNext X r w = (nextLine r, w, None))
 \<and> (\<not> eof r \<and> cursor r = Some [] \<and> cursor (nextLine r) \<noteq> Some [] \<and> \<not> eof (nextLine r) \<longrightarrow>
      readToNext X r w = (fst (matchItem X (nextLine r) [''indented'']), w,
                          snd (matchItem X (nextLine r) [''indented''])))
 \<and> ((\<forall>d \<in> set defs. exec (matchRe d) (cursorLine r) = None) \<longrightarrow>
      matchItem X r [''indented'']
        = (r, if openMatch X ''indented'' (cursorLine r) then Some Block else None))
 \<and> (fst (renderItemText X it s)
      = snd (snd (readToNext X (nextLine (reader s))
                    [(ItemText, group (itemMatch it) (length (itemMatch it) - 1)),
                     (ItemText, [NL])]))
    \<and> reader (snd (renderItemText X it s))
      = fst (readToNext X (nextLine (reader s))
                    [(ItemText, group (itemMatch it) (length (itemMatch it) - 1)),
                     (ItemText, [NL])]))
 \<and> (fst (renderItemText X it s) = None \<longrightarrow>
      renderListItem (Suc (Suc n)) X it s
        = Some (None, closeItem (itemDef it) (snd (renderItemText X it s))))
 \<and> (renderListItem n X it s = Some (None, t) \<longrightarrow>
      renderListLoop (Suc n) X it s
        = Some (None, t\<lparr>writer := writeFrag ListClose (listCloseTag (itemDef it)) (writer t),
                        ids := butlast (ids t)\<rparr>))
 \<and> (listItem f = Some it \<and> itemId it \<notin> set (ids s) \<and> renderList n X it s = Some (None, t) \<longrightarrow>
      renderListItemLoop (Suc n) X d (Some f) s = Some (None, closeItem d t))"
proof -
  have p1: "eof r \<longrightarrow> readToNext X r w = (r, w, None)"
    by (simp add: readToNext_eof)
  have p2: "\<not> eof r \<and> cursor r = Some [] \<and> (cursor (nextLine r) = Some [] \<or> eof (nextLine r)) \<longrightarrow>
      readToNext X r w = (nextLine r, w, None)"
    by (simp add: readToNext_blank)
  have p3: "\<not> eof r \<and> cursor r = Some [] \<and> cursor (nextLine r) \<noteq> Some [] \<and> \<not> eof (nextLine r) \<longrightarrow>
      readToNext X r w = (fst (matchItem X (nextLine r) [''indented'']), w,
                          snd (matchItem X (nextLine r) [''indented'']))"
    by (simp add: readToNext_blank blankLineAttachments_def)
  have p4: "(\<forall>d \<in> set defs. exec (matchRe d) (cursorLine r) = None) \<longrightarrow>
      matchItem X r [''indented'']
        = (r, if openMatch X ''indented'' (cursorLine r) then Some Block else None)"
  proof
    assume "\<forall>d \<in> set defs. exec (matchRe d) (cursorLine r) = None"
    then have "matchDefs defs r (cursorLine r) = None"
      by (rule matchDefs_None)
    then show "matchItem X r [''indented'']
        = (r, if openMatch X ''indented'' (cursorLine r) then Some Block else None)"
      by (simp add: matchItem_def)
  qed
  have p5: "fst (renderItemText X it s)
      = snd (snd (readToNext X (nextLine (reader s))
                    [(ItemText, group (itemMatch it) (length (itemMatch it) - 1)),
                     (ItemText, [NL])]))
    \<and> reader (snd (renderItemText X it s))
      = fst (readToNext X (nextLine (reader s))
                    [(ItemText, group (itemMatch it) (length (itemMatch it) - 1)),
                     (ItemText, [NL])])"
    by (simp add: renderItemText_eval Let_def writeFrag_def)
  have p6: "fst (renderItemText X it s) = None \<longrightarrow>
      renderListItem (Suc (Suc n)) X it s
        = Some (None, closeItem (itemDef it) (snd (renderItemText X it s)))"
    by (cases "renderItemText X it s") simp
  have p7: "renderListItem n X it s = Some (None, t) \<longrightarrow>
      renderListLoop (Suc n) X it s
        = Some (None, t\<lparr>writer := writeFrag ListClose (listCloseTag (itemDef it)) (writer t),
                        ids := butlast (ids t)\<rparr>)"
    by simp
  have p8: "listItem f = Some it \<and> itemId it \<notin> set (ids s) \<and> renderList n X it s = Some (None, t) \<longrightarrow>
      renderListItemLoop (Suc n) X d (Some f) s = Some (None, closeItem d t)"
    by simp
  show ?thesis
    by (rule conjI [OF p1 conjI [OF p2 conjI [OF p3 conjI [OF p4 conjI [OF p5 conjI [OF p6
        conjI [OF p7 p8]]]]]]])
qed

theorem blank_lines_in_item_text_witness:
  "\<not> eof \<lparr>lines = [str ''- a'', str ''* b'', [], [], str ''- c''], pos = 2\<rparr>
   \<and> cursor \<lparr>lines = [str ''- a'', str ''* b'', [], [], str ''- c''], pos = 2\<rparr> = Some []
   \<and> cursor (nextLine \<lparr>lines = [str ''- a'', str ''* b'', [], [], str ''- c''], pos = 2\<rparr>) = Some []
   \<and> readToNext exampleExt \<lparr>lines = [str ''- a'', str ''* b'', [], [], str ''- c''], pos = 2\<rparr> []
      = (\<lparr>lines = [str ''- a'', str ''* b'', [], [], str ''- c''], pos = 3\<rparr>, [], None)
   \<and> renderString 20 exampleExt [str ''- a'', str ''* b'', [], [], str ''- c'']
      = Some (Inr (True, 3,
          str ''<ul><li>a'' @ [NL] @ str ''<ul><li>b'' @ [NL] @ str ''</li></ul></li></ul>''))
   \<and> eof \<lparr>lines = [str ''- a'', str ''* b''], pos = 2\<rparr>
   \<and> readToNext exampleExt \<lparr>lines = [str ''- a'', str ''* b''], pos = 2\<rparr> []
      = (\<lparr>lines = [str ''- a'', str ''* b''], pos = 2\<rparr>, [], None)
   \<and> renderString 20 exampleExt [str ''- a'', str ''* b'']
      = Some (Inr (True, 2,
          str ''<ul><li>a'' @ [NL] @ str ''<ul><li>b'' @ [NL] @ str ''</li></ul></li></ul>''))
   \<and> exec UnorderedRe (str ''b'') = None \<and> exec OrderedRe (str ''b'') = None
   \<and> exec DefinitionRe (str ''b'') = None
   \<and> matchItem exampleExt \<lparr>lines = [str ''- a'', [], str ''b''], pos = 2\<rparr> [''indented'']
      = (\<lparr>lines = [str ''- a'', [], str ''b''], pos = 2\<rparr>, None)
   \<and> renderString 20 exampleExt [str ''- a'', [], str ''- b'']
      = Some (Inr (True, 3, str ''<ul><li>a'' @ [NL] @ str ''</li><li>b'' @ [NL] @ str ''</li></ul>''))
   \<and> renderString 20 exampleExt [str ''- a'', [], str ''  b'']
      = Some (Inr (True, 3, str ''<ul><li>a'' @ [NL] @ str ''  b</li></ul>''))"
proof -
  let ?L = "[str ''- a'', str ''* b'', [], [], str ''- c'']"
  let ?r = "\<lparr>lines = ?L, pos = 2\<rparr>"
  let ?e = "\<lparr>lines = [str ''- a'', str ''* b''], pos = 2\<rparr>"
  let ?b = "\<lparr>lines = [str ''- a'', [], str ''b''], pos = 2\<rparr>"
  have h1: "\<not> eof ?r" and h2: "cursor ?r = Some []" and h3: "cursor (nextLine ?r) = Some []"
    by (simp_all add: eof_def cursor_def nextLine_def)
  have n: "nextLine ?r = \<lparr>lines = ?L, pos = 3\<rparr>"
    by (simp add: nextLine_def eof_def)
  from blank_lines_in_item_text [of ?r exampleExt "[]"] h1 h2 h3
  have "readToNext exampleExt ?r [] = (nextLine ?r, [], None)"
    by blast
  with n have c1: "readToNext exampleExt ?r [] = (\<lparr>lines = ?L, pos = 3\<rparr>, [], None)"
    by simp
  have h4: "eof ?e"
    by (simp add: eof_def)
  from blank_lines_in_item_text [of ?e exampleExt "[]"] h4
  have c2: "readToNext exampleExt ?e [] = (?e, [], None)"
    by blast
  have h5: "exec UnorderedRe (str ''b'') = None \<and> exec OrderedRe (str ''b'') = None
      \<and> exec DefinitionRe (str ''b'') = None"
    by (simp add: regex_defs)
  have cl: "cursorLine ?b = str ''b''"
    by (simp add: cursorLine_def cursor_def eof_def)
  from h5 have h6: "\<forall>d \<in> set defs. exec (matchRe d) (cursorLine ?b) = None"
    by (simp add: defs_def cl)
  have h7: "\<not> openMatch exampleExt ''indented'' (cursorLine ?b)"
    unfolding cl by (simp add: exampleExt_simps str_def)
  from blank_lines_in_item_text [of ?b exampleExt] h6 h7
  have c3: "matchItem exampleExt ?b [''indented''] = (?b, None)"
    by simp
  have c4: "renderString 20 exampleExt ?L
      = Some (Inr (True, 3,
          str ''<ul><li>a'' @ [NL] @ str ''<ul><li>b'' @ [NL] @ str ''</li></ul></li></ul>''))"
    by (simp add: regex_defs engine_defs cong: eval_cong)
  have c5: "renderString 20 exampleExt [str ''- a'', str ''* b'']
      = Some (Inr (True, 2,
          str ''<ul><li>a'' @ [NL] @ str ''<ul><li>b'' @ [NL] @ str ''</li></ul></li></ul>''))"
    by (simp add: regex_defs engine_defs cong: eval_cong)
  have c6: "renderString 20 exampleExt [str ''- a'', [], str ''- b'']
      = Some (Inr (True, 3, str ''<ul><li>a'' @ [NL] @ str ''</li><li>b'' @ [NL] @ str ''</li></ul>''))"
    by (simp add: regex_defs engine_defs cong: eval_cong)
  have c7: "renderString 20 exampleExt [str ''- a'', [], str ''  b'']
      = Some (Inr (True, 3, str ''<ul><li>a'' @ [NL] @ str ''  b</li></ul>''))"
    by (simp add: regex_defs engine_defs cong: eval_cong)
  from h1 h2 h3 c1 c4 h4 c2 c5 h5 c3 c6 c7 show ?thesis
    by blast
qed

text \<open>
  After the single blank line of \<open>- a\<close>, blank, \<open>b\<close>, \<open>- c\<close> the line \<open>b\<close> is neither a
  continuation of the item nor a new item: \<open>readToNext\<close> returns null on it, the list is
  closed and \<open>render\<close> returns with the reader on \<open>b\<close>, which is not in the output; the
  list item line \<open>- c\<close> after it is not read.
\<close>

theorem text_after_blank_line_ends_list:
  "readToNext exampleExt \<lparr>lines = [str ''- a'', [], str ''b'', str ''- c''], pos = 1\<rparr>
       [(ItemText, str ''a''), (ItemText, [NL])]
     = (\<lparr>lines = [str ''- a'', [], str ''b'', str ''- c''], pos = 2\<rparr>,
        [(ItemText, str ''a''), (ItemText, [NL])], None)
   \<and> renderString 20 exampleExt [str ''- a'', [], str ''b'', str ''- c'']
     = Some (Inr (True, 2, str ''<ul><li>a'' @ [NL] @ str ''</li></ul>''))"
  by (simp add: regex_defs engine_defs cong: eval_cong)

end
